theory Spec2Isabelle
  imports Main "HOL-Library.Multiset"
begin

section \<open>Errors\<close>

text \<open>
  Both components signal every failure by throwing \<open>cipher_error\<close> with a message.
  The model returns the failure as a value, one constructor per kind of message:
  \<^item> \<open>InvalidKey\<close>: "key must be positive" (route cipher), "Invalid key" (substitution);
  \<^item> \<open>EmptyKey\<close>: "Empty key";
  \<^item> \<open>WeakKey\<close>: "Weak key";
  \<^item> \<open>EmptyText\<close>: "text is empty" (route cipher), "Empty open text",
    "Empty cipher text" (substitution);
  \<^item> \<open>NoLetters\<close>: "text contains no letters" (route cipher);
  \<^item> \<open>TextTooShort\<close>: "text length must exceed the key" (route cipher);
  \<^item> \<open>InvalidCipherText\<close>: "Invalid cipher text".

  Sizes and indices (\<open>size_t\<close>, and the \<open>int\<close> and \<open>unsigned\<close> loop counters that
  run over them) are natural numbers in the model: it describes texts short enough
  for a 32-bit counter to index them (fewer than \<open>2^31\<close> characters).
\<close>

datatype cipher_error =
  InvalidKey | EmptyKey | WeakKey | EmptyText | NoLetters | TextTooShort | InvalidCipherText

section \<open>modAlphaCipher: substitution over the 33-letter alphabet\<close>

text \<open>
  A \<open>wchar_t\<close> is modelled by its code point, an integer; a \<open>std::wstring\<close> is a list
  of them. The character literals of the source are U+0410 (capital A) to U+042F
  (capital YA), U+0430 (small a) to U+044F (small ya), U+0401 (capital IO) and
  U+0451 (small io).
\<close>

type_synonym wchar = int
type_synonym wstring = "wchar list"

definition numAlpha :: wstring where
  "numAlpha =
     [0x410, 0x411, 0x412, 0x413, 0x414, 0x415, 0x401, 0x416, 0x417, 0x418, 0x419,
      0x41A, 0x41B, 0x41C, 0x41D, 0x41E, 0x41F, 0x420, 0x421, 0x422, 0x423, 0x424,
      0x425, 0x426, 0x427, 0x428, 0x429, 0x42A, 0x42B, 0x42C, 0x42D, 0x42E, 0x42F]"

record modAlpha =
  alphaNum :: "wchar \<rightharpoonup> int"
  key :: "int list"

definition isValidChar :: "wchar \<Rightarrow> bool" where
  "isValidChar c \<longleftrightarrow>
     (c \<ge> 0x410 \<and> c \<le> 0x42F) \<or> (c \<ge> 0x430 \<and> c \<le> 0x44F) \<or> c = 0x401 \<or> c = 0x451"

definition isUpperChar :: "wchar \<Rightarrow> bool" where
  "isUpperChar c \<longleftrightarrow> (c \<ge> 0x410 \<and> c \<le> 0x42F) \<or> c = 0x401"

definition toUpperChar :: "wchar \<Rightarrow> wchar" where
  "toUpperChar c =
     (if c \<ge> 0x430 \<and> c \<le> 0x44F then c - 0x430 + 0x410
      else if c = 0x451 then 0x401
      else c)"

text \<open>The loop of \<open>modAlphaCipher::getValidKey\<close>: the first invalid character throws.\<close>

fun modAlphaCipher_getValidKey_loop :: "wstring \<Rightarrow> cipher_error + wstring" where
  "modAlphaCipher_getValidKey_loop [] = Inr []"
| "modAlphaCipher_getValidKey_loop (c # cs) =
     (if \<not> isValidChar c then Inl InvalidKey
      else case modAlphaCipher_getValidKey_loop cs of
             Inl e \<Rightarrow> Inl e
           | Inr tmp \<Rightarrow> Inr (toUpperChar c # tmp))"

definition modAlphaCipher_getValidKey :: "wstring \<Rightarrow> cipher_error + wstring" where
  "modAlphaCipher_getValidKey s = (if s = [] then Inl EmptyKey else modAlphaCipher_getValidKey_loop s)"

definition getValidOpenText :: "wstring \<Rightarrow> cipher_error + wstring" where
  "getValidOpenText s =
     (let tmp = foldl (\<lambda>tmp c. if isValidChar c then tmp @ [toUpperChar c] else tmp) [] s
      in if tmp = [] then Inl EmptyText else Inr tmp)"

definition getValidCipherText :: "wstring \<Rightarrow> cipher_error + wstring" where
  "getValidCipherText s =
     (if s = [] then Inl EmptyText
      else if list_ex (\<lambda>c. \<not> isUpperChar c) s then Inl InvalidCipherText
      else Inr s)"

text \<open>
  \<open>convert\<close> from a string to indices keeps the characters found in the map;
  \<open>convert\<close> from indices to a string keeps the indices inside the alphabet.
\<close>

fun convert_s :: "(wchar \<rightharpoonup> int) \<Rightarrow> wstring \<Rightarrow> int list" where
  "convert_s an [] = []"
| "convert_s an (c # s) =
     (case an c of None \<Rightarrow> convert_s an s | Some i \<Rightarrow> i # convert_s an s)"

fun convert_v :: "int list \<Rightarrow> wstring" where
  "convert_v [] = []"
| "convert_v (i # v) =
     (if i \<ge> 0 \<and> i < int (length numAlpha) then numAlpha ! nat i # convert_v v
      else convert_v v)"

text \<open>The constructor first fills the map from symbols to indices.\<close>

definition init_alphaNum :: "wchar \<rightharpoonup> int" where
  "init_alphaNum =
     fold (\<lambda>i m. m(numAlpha ! i \<mapsto> int i)) [0..<length numAlpha] Map.empty"

text \<open>
  The weak-key scan starts at index 1 and leaves \<open>isWeakKey\<close> true unless it finds a
  character different from the first; it is skipped for keys of size at most 1.
\<close>

fun weak_scan :: "wchar \<Rightarrow> wstring \<Rightarrow> bool" where
  "weak_scan firstChar [] = True"
| "weak_scan firstChar (c # cs) = (if c \<noteq> firstChar then False else weak_scan firstChar cs)"

definition isWeakKey :: "wstring \<Rightarrow> bool" where
  "isWeakKey validKey =
     (if length validKey > 1 then weak_scan (validKey ! 0) (drop 1 validKey) else True)"

definition modAlphaCipher :: "wstring \<Rightarrow> cipher_error + modAlpha" where
  "modAlphaCipher skey =
     (case modAlphaCipher_getValidKey skey of
        Inl e \<Rightarrow> Inl e
      | Inr validKey \<Rightarrow>
          if isWeakKey validKey \<and> length validKey > 0 then Inl WeakKey
          else Inr \<lparr>alphaNum = init_alphaNum, key = convert_s init_alphaNum validKey\<rparr>)"

text \<open>
  The arithmetic of \<open>encrypt\<close> and \<open>decrypt\<close> mixes \<open>int\<close> with \<open>size_t\<close>, so it is
  done on 64-bit unsigned values and the result is stored back into an \<open>int\<close>.
\<close>

definition to_size_t :: "int \<Rightarrow> nat" where
  "to_size_t x = nat (x mod 2 ^ 64)"

definition encrypt_at :: "modAlpha \<Rightarrow> int list \<Rightarrow> nat \<Rightarrow> int" where
  "encrypt_at c work i =
     int (to_size_t (work ! i + key c ! (i mod length (key c))) mod length numAlpha)"

definition decrypt_at :: "modAlpha \<Rightarrow> int list \<Rightarrow> nat \<Rightarrow> int" where
  "decrypt_at c work i =
     int (((to_size_t (work ! i) + length numAlpha + 2 ^ 64
             - to_size_t (key c ! (i mod length (key c)))) mod 2 ^ 64)
          mod length numAlpha)"

definition modAlphaCipher_encrypt :: "modAlpha \<Rightarrow> wstring \<Rightarrow> cipher_error + wstring" where
  "modAlphaCipher_encrypt c open_text =
     (case getValidOpenText open_text of
        Inl e \<Rightarrow> Inl e
      | Inr valid \<Rightarrow>
          let work = convert_s (alphaNum c) valid;
              work' = fold (\<lambda>i w. w[i := encrypt_at c w i]) [0..<length work] work
          in Inr (convert_v work'))"

definition modAlphaCipher_decrypt :: "modAlpha \<Rightarrow> wstring \<Rightarrow> cipher_error + wstring" where
  "modAlphaCipher_decrypt c cipher_text =
     (case getValidCipherText cipher_text of
        Inl e \<Rightarrow> Inl e
      | Inr valid \<Rightarrow>
          let work = convert_s (alphaNum c) valid;
              work' = fold (\<lambda>i w. w[i := decrypt_at c w i]) [0..<length work] work
          in Inr (convert_v work'))"

text \<open>
  The alphabet index of a letter is its position in \<open>numAlpha\<close> (33 for a
  character that is not in the alphabet).
\<close>

definition index_of :: "wchar \<Rightarrow> nat" where
  "index_of ch = length (takeWhile (\<lambda>x. x \<noteq> ch) numAlpha)"

section \<open>TableRouteCipher: route transposition\<close>

text \<open>
  A \<open>std::string\<close> is a list of bytes. The program never changes the locale, so
  \<open>isalpha\<close> and \<open>toupper\<close> are those of the "C" locale: the ASCII letters.
\<close>

record TableRoute =
  columns :: nat

definition TableRouteCipher_getValidKey :: "int \<Rightarrow> cipher_error + nat" where
  "TableRouteCipher_getValidKey k = (if k \<le> 0 then Inl InvalidKey else Inr (nat k))"

definition TableRouteCipher :: "int \<Rightarrow> cipher_error + TableRoute" where
  "TableRouteCipher k =
     (case TableRouteCipher_getValidKey k of
        Inl e \<Rightarrow> Inl e
      | Inr n \<Rightarrow> Inr \<lparr>columns = n\<rparr>)"

definition isalpha :: "char \<Rightarrow> bool" where
  "isalpha c \<longleftrightarrow>
     (let n = (of_char c :: nat) in (65 \<le> n \<and> n \<le> 90) \<or> (97 \<le> n \<and> n \<le> 122))"

definition toupper :: "char \<Rightarrow> char" where
  "toupper c =
     (let n = (of_char c :: nat) in if 97 \<le> n \<and> n \<le> 122 then char_of (n - 32) else c)"

definition getValidText :: "string \<Rightarrow> cipher_error + string" where
  "getValidText text =
     (if text = [] then Inl EmptyText
      else
        let result =
              foldl (\<lambda>result c. if isalpha c then result @ [toupper c] else result) [] text
        in if result = [] then Inl NoLetters else Inr result)"

text \<open>
  The tables are vectors of vectors: \<open>rows\<close> rows of \<open>cols\<close> cells, created with the
  same value in every cell.
\<close>

type_synonym 'a table = "'a list list"

definition new_table :: "nat \<Rightarrow> nat \<Rightarrow> 'a \<Rightarrow> 'a table" where
  "new_table rows cols x = replicate rows (replicate cols x)"

definition cell :: "'a table \<Rightarrow> nat \<Rightarrow> nat \<Rightarrow> 'a" where
  "cell t i j = t ! i ! j"

definition set_cell :: "'a table \<Rightarrow> nat \<Rightarrow> nat \<Rightarrow> 'a \<Rightarrow> 'a table" where
  "set_cell t i j x = t[i := (t ! i)[j := x]]"

text \<open>
  The loops of \<open>encrypt\<close>: fill the table row by row from the text, then read it
  column by column, from the last column to the first and from the last row to the
  first, skipping the cells that hold a blank.
\<close>

definition fill_rows :: "string \<Rightarrow> nat \<Rightarrow> nat \<Rightarrow> char table" where
  "fill_rows validText rows cols =
     fst (fold (\<lambda>i. fold (\<lambda>j (table, index).
                    if index < length validText
                    then (set_cell table i j (validText ! index), index + 1)
                    else (table, index))
                  [0..<cols])
            [0..<rows] (new_table rows cols CHR '' '', 0))"

definition read_columns :: "char table \<Rightarrow> nat \<Rightarrow> nat \<Rightarrow> string" where
  "read_columns table rows cols =
     fold (\<lambda>j. fold (\<lambda>i result.
               if cell table i j \<noteq> CHR '' '' then result @ [cell table i j] else result)
             (rev [0..<rows]))
       (rev [0..<cols]) []"

definition TableRouteCipher_encrypt :: "TableRoute \<Rightarrow> string \<Rightarrow> cipher_error + string" where
  "TableRouteCipher_encrypt c text =
     (case getValidText text of
        Inl e \<Rightarrow> Inl e
      | Inr validText \<Rightarrow>
          if length validText \<le> columns c then Inl TextTooShort
          else
            let len = length validText;
                rows = (len + columns c - 1) div columns c;
                table = fill_rows validText rows (columns c)
            in Inr (read_columns table rows (columns c)))"

text \<open>
  The loops of \<open>decrypt\<close>: mark the cells that \<open>encrypt\<close> fills, write the text into
  the marked cells in the order in which \<open>encrypt\<close> reads them, then read the marked
  cells row by row.
\<close>

definition mark_filled :: "nat \<Rightarrow> nat \<Rightarrow> nat \<Rightarrow> bool table" where
  "mark_filled len rows cols =
     fst (fold (\<lambda>i. fold (\<lambda>j (filled, total_filled).
                    if total_filled < len
                    then (set_cell filled i j True, total_filled + 1)
                    else (filled, total_filled))
                  [0..<cols])
            [0..<rows] (new_table rows cols False, 0::nat))"

definition write_columns :: "string \<Rightarrow> bool table \<Rightarrow> nat \<Rightarrow> nat \<Rightarrow> char table" where
  "write_columns validText filled rows cols =
     fst (fold (\<lambda>j. fold (\<lambda>i (table, text_index).
                    if cell filled i j \<and> text_index < length validText
                    then (set_cell table i j (validText ! text_index), text_index + 1)
                    else (table, text_index))
                  (rev [0..<rows]))
            (rev [0..<cols]) (new_table rows cols CHR '' '', 0))"

definition read_rows :: "char table \<Rightarrow> bool table \<Rightarrow> nat \<Rightarrow> nat \<Rightarrow> string" where
  "read_rows table filled rows cols =
     fold (\<lambda>i. fold (\<lambda>j result.
               if cell filled i j then result @ [cell table i j] else result)
             [0..<cols])
       [0..<rows] []"

definition TableRouteCipher_decrypt :: "TableRoute \<Rightarrow> string \<Rightarrow> cipher_error + string" where
  "TableRouteCipher_decrypt c text =
     (case getValidText text of
        Inl e \<Rightarrow> Inl e
      | Inr validText \<Rightarrow>
          if length validText \<le> columns c then Inl TextTooShort
          else
            let len = length validText;
                rows = (len + columns c - 1) div columns c;
                filled = mark_filled len rows (columns c);
                table = write_columns validText filled rows (columns c)
            in Inr (read_rows table filled rows (columns c)))"

section \<open>Notions used in the proofs\<close>

text \<open>
  A table has \<open>r\<close> rows of \<open>k\<close> cells each. The loops over the table visit its cells
  in one of two orders: row by row (\<open>row_major\<close>), or column by column from the last
  column to the first and from the last row to the first (\<open>col_route\<close>). Both
  writing loops have the same shape: they walk over a list of cells and put the next
  unread character into each cell that passes a test (\<open>write_cells\<close>).
  \<open>route_perm n r k\<close> lists the text positions of the \<open>n\<close> filled cells in the
  order in which \<open>encrypt\<close> reads them. A text is \<open>normal\<close> when it is not empty and
  all its characters are upper-case letters.
\<close>

definition dims :: "'a table \<Rightarrow> nat \<Rightarrow> nat \<Rightarrow> bool" where
  "dims t r k \<longleftrightarrow> length t = r \<and> (\<forall>row\<in>set t. length row = k)"

definition write_cells ::
  "(nat \<Rightarrow> nat \<Rightarrow> bool) \<Rightarrow> 'a list \<Rightarrow> (nat \<times> nat) list \<Rightarrow> 'a table \<times> nat \<Rightarrow> 'a table \<times> nat" where
  "write_cells P xs cells st =
     fold (\<lambda>(i, j) (tbl, idx).
             if P i j \<and> idx < length xs then (set_cell tbl i j (xs ! idx), idx + 1)
             else (tbl, idx))
       cells st"

definition row_major :: "nat \<Rightarrow> nat \<Rightarrow> (nat \<times> nat) list" where
  "row_major r k = List.product [0..<r] [0..<k]"

definition col_route :: "nat \<Rightarrow> nat \<Rightarrow> (nat \<times> nat) list" where
  "col_route r k = map prod.swap (List.product (rev [0..<k]) (rev [0..<r]))"

definition route_perm :: "nat \<Rightarrow> nat \<Rightarrow> nat \<Rightarrow> nat list" where
  "route_perm n r k = filter (\<lambda>p. p < n) (map (\<lambda>(i, j). i * k + j) (col_route r k))"

definition normal :: "string \<Rightarrow> bool" where
  "normal v \<longleftrightarrow> v \<noteq> [] \<and> (\<forall>ch\<in>set v. isalpha ch \<and> toupper ch = ch)"

section \<open>Properties of the substitution cipher\<close>

lemma length_numAlpha: "length numAlpha = 33" by (simp add: numAlpha_def)

lemma distinct_numAlpha: "distinct numAlpha" by (simp add: numAlpha_def)

lemma isUpperChar_iff: "isUpperChar ch \<longleftrightarrow> ch \<in> set numAlpha"
  unfolding isUpperChar_def numAlpha_def by (simp only: list.set insert_iff empty_iff) arith

lemma takeWhile_neq_less: "x \<in> set xs \<Longrightarrow> length (takeWhile (\<lambda>y. y \<noteq> x) xs) < length xs"
  by (induction xs) auto

lemma takeWhile_neq_nth: "x \<in> set xs \<Longrightarrow> xs ! length (takeWhile (\<lambda>y. y \<noteq> x) xs) = x"
  by (induction xs) auto

lemma takeWhile_neq_distinct:
  "distinct xs \<Longrightarrow> i < length xs \<Longrightarrow> length (takeWhile (\<lambda>y. y \<noteq> xs ! i) xs) = i"
proof (induction xs arbitrary: i)
  case Nil then show ?case by simp
next
  case (Cons x xs) then show ?case by (cases i) auto
qed

lemma index_of_less: "ch \<in> set numAlpha \<Longrightarrow> index_of ch < 33"
  unfolding index_of_def using takeWhile_neq_less[of ch numAlpha] by (simp add: length_numAlpha)
  
lemma nth_index_of: "ch \<in> set numAlpha \<Longrightarrow> numAlpha ! index_of ch = ch"
  unfolding index_of_def by (rule takeWhile_neq_nth)

lemma index_of_nth: "i < 33 \<Longrightarrow> index_of (numAlpha ! i) = i"
  unfolding index_of_def by (rule takeWhile_neq_distinct) (simp_all add: distinct_numAlpha length_numAlpha)

lemma fold_upd_other:
  "c \<notin> set (take n xs) \<Longrightarrow> n \<le> length xs \<Longrightarrow> fold (\<lambda>i m. m(xs ! i \<mapsto> int i)) [0..<n] m0 c = m0 c"
  by (induction n) (auto simp: take_Suc_conv_app_nth)

lemma fold_upd_nth:
  "i < n \<Longrightarrow> n \<le> length xs \<Longrightarrow> distinct xs \<Longrightarrow> fold (\<lambda>i m. m(xs ! i \<mapsto> int i)) [0..<n] m0 (xs ! i) = Some (int i)"
proof (induction n)
  case 0 then show ?case by simp
next
  case (Suc n)
  show ?case
  proof (cases "i = n")
    case True then show ?thesis by simp
  next
    case False
    with Suc.prems have "i < n" "xs ! n \<noteq> xs ! i" by (auto simp: nth_eq_iff_index_eq)
    with Suc show ?thesis by simp
  qed
qed

lemma init_alphaNum_eq:
  "init_alphaNum ch = (if ch \<in> set numAlpha then Some (int (index_of ch)) else None)"
proof (cases "ch \<in> set numAlpha")
  case True
  then have "init_alphaNum (numAlpha ! index_of ch) = Some (int (index_of ch))"
    unfolding init_alphaNum_def
    by (intro fold_upd_nth) (simp_all add: index_of_less length_numAlpha distinct_numAlpha)
  with True show ?thesis by (simp add: nth_index_of)
next
  case False
  then show ?thesis unfolding init_alphaNum_def by (simp add: fold_upd_other)
qed

lemma convert_s_upper:
  "\<forall>ch\<in>set s. isUpperChar ch \<Longrightarrow> convert_s init_alphaNum s = map (\<lambda>ch. int (index_of ch)) s"
  by (induction s) (auto simp: init_alphaNum_eq isUpperChar_iff)

lemma fold_update_each:
  "n \<le> length w \<Longrightarrow>
   fold (\<lambda>i w. w[i := h i (w ! i)]) [0..<n] w =
     map (\<lambda>i. if i < n then h i (w ! i) else w ! i) [0..<length w]"
proof (induction n)
  case 0 then show ?case by (simp add: map_nth)
next
  case (Suc n)
  let ?m = "map (\<lambda>i. if i < n then h i (w ! i) else w ! i) [0..<length w]"
  have "fold (\<lambda>i w. w[i := h i (w ! i)]) [0..<Suc n] w = ?m[n := h n (?m ! n)]"
    using Suc by simp
  also have "\<dots> = map (\<lambda>i. if i < Suc n then h i (w ! i) else w ! i) [0..<length w]"
    using Suc.prems by (intro nth_equalityI) (auto simp: nth_list_update less_Suc_eq)
  finally show ?case .
qed

lemma fold_update_all:
  "fold (\<lambda>i w. w[i := h i (w ! i)]) [0..<length w] w = map (\<lambda>i. h i (w ! i)) [0..<length w]"
proof -
  have "map (\<lambda>i. if i < length w then h i (w ! i) else w ! i) [0..<length w] =
        map (\<lambda>i. h i (w ! i)) [0..<length w]"
    by (rule map_cong[OF refl]) simp
  then show ?thesis
    using fold_update_each[of "length w" w h] by simp
qed

lemma isUpper_toUpper: "isValidChar ch \<Longrightarrow> isUpperChar (toUpperChar ch)"
  unfolding isValidChar_def isUpperChar_def toUpperChar_def by auto

lemma toUpper_upper: "isUpperChar ch \<Longrightarrow> toUpperChar ch = ch"
  unfolding isUpperChar_def toUpperChar_def by auto

lemma upper_valid: "isUpperChar ch \<Longrightarrow> isValidChar ch"
  unfolding isUpperChar_def isValidChar_def by auto

lemma getValidKey_loop_eq:
  "modAlphaCipher_getValidKey_loop s =
     (if \<forall>c\<in>set s. isValidChar c then Inr (map toUpperChar s) else Inl InvalidKey)"
  by (induction s) auto

lemma foldl_snoc_filter:
  "foldl (\<lambda>r c. if P c then r @ [f c] else r) acc xs = acc @ map f (filter P xs)"
  by (induction xs arbitrary: acc) auto

lemma getValidOpenText_eq:
  "getValidOpenText s =
     (if \<exists>c\<in>set s. isValidChar c then Inr (map toUpperChar (filter isValidChar s))
      else Inl EmptyText)"
  by (auto simp: getValidOpenText_def foldl_snoc_filter Let_def filter_empty_conv)

lemma getValidCipherText_eq:
  "getValidCipherText s =
     (if s = [] then Inl EmptyText
      else if \<exists>c\<in>set s. \<not> isUpperChar c then Inl InvalidCipherText
      else Inr s)"
  by (simp add: getValidCipherText_def list_ex_iff)

lemma weak_scan_eq: "weak_scan x cs \<longleftrightarrow> (\<forall>c\<in>set cs. c = x)"
  by (induction cs) auto

lemma isWeakKey_eq: "vs \<noteq> [] \<Longrightarrow> isWeakKey vs \<longleftrightarrow> (\<forall>c\<in>set vs. c = hd vs)"
  by (cases vs) (auto simp: isWeakKey_def weak_scan_eq)

lemma getValidKey_eq:
  "modAlphaCipher_getValidKey s =
     (if s = [] then Inl EmptyKey
      else if \<exists>ch\<in>set s. \<not> isValidChar ch then Inl InvalidKey
      else Inr (map toUpperChar s))"
  by (simp add: modAlphaCipher_getValidKey_def getValidKey_loop_eq)

lemma isWeakKey_map:
  "s \<noteq> [] \<Longrightarrow> isWeakKey (map f s) \<longleftrightarrow> (\<forall>ch\<in>set s. f ch = f (hd s))"
  by (simp add: isWeakKey_eq hd_map)

lemma modAlphaCipher_eq:
  "modAlphaCipher skey =
     (if skey = [] then Inl EmptyKey
      else if \<exists>ch\<in>set skey. \<not> isValidChar ch then Inl InvalidKey
      else if \<forall>ch\<in>set skey. toUpperChar ch = toUpperChar (hd skey) then Inl WeakKey
      else Inr \<lparr>alphaNum = init_alphaNum,
                key = map (\<lambda>ch. int (index_of (toUpperChar ch))) skey\<rparr>)"
proof (cases "skey = [] \<or> (\<exists>ch\<in>set skey. \<not> isValidChar ch)")
  case True
  then show ?thesis
    unfolding modAlphaCipher_def getValidKey_eq by auto
next
  case False
  then have ne: "skey \<noteq> []" and ok: "\<forall>ch\<in>set skey. isValidChar ch"
    by auto
  have "\<forall>ch\<in>set (map toUpperChar skey). isUpperChar ch"
    using ok by (simp add: isUpper_toUpper)
  then have conv: "convert_s init_alphaNum (map toUpperChar skey) =
                map (\<lambda>ch. int (index_of (toUpperChar ch))) skey"
    by (simp only: convert_s_upper map_map comp_def)
  have gk: "modAlphaCipher_getValidKey skey = Inr (map toUpperChar skey)"
    using ne ok by (simp add: getValidKey_eq)
  have weak: "isWeakKey (map toUpperChar skey) \<and> length (map toUpperChar skey) > 0 \<longleftrightarrow>
       (\<forall>ch\<in>set skey. toUpperChar ch = toUpperChar (hd skey))"
    using ne by (simp add: isWeakKey_map)
  have "modAlphaCipher skey =
     (if \<forall>ch\<in>set skey. toUpperChar ch = toUpperChar (hd skey) then Inl WeakKey
      else Inr \<lparr>alphaNum = init_alphaNum,
                key = map (\<lambda>ch. int (index_of (toUpperChar ch))) skey\<rparr>)"
    unfolding modAlphaCipher_def gk sum.case weak conv ..
  moreover have "\<not> (\<exists>ch\<in>set skey. \<not> isValidChar ch)"
    using ok by simp
  ultimately show ?thesis
    by (simp only: ne if_False)
qed

lemma valid_cipher:
  assumes "modAlphaCipher skey = Inr c"
  shows "alphaNum c = init_alphaNum" and "key c \<noteq> []"
    and "\<forall>k\<in>set (key c). 0 \<le> k \<and> k < 33"
    and "key c = map (\<lambda>ch. int (index_of (toUpperChar ch))) skey"
  using assms
  by (auto simp: modAlphaCipher_eq isUpperChar_iff[symmetric] split: if_splits
        intro!: index_of_less[unfolded isUpperChar_iff[symmetric]] isUpper_toUpper)

lemma key_nth_range:
  assumes "modAlphaCipher skey = Inr c"
  shows "0 \<le> key c ! (i mod length (key c))" "key c ! (i mod length (key c)) < 33"
proof -
  have "key c ! (i mod length (key c)) \<in> set (key c)"
    using valid_cipher(2)[OF assms] by simp
  then show "0 \<le> key c ! (i mod length (key c))" "key c ! (i mod length (key c)) < 33"
    using valid_cipher(3)[OF assms] by auto
qed

lemma to_size_t_int: "n < 2 ^ 64 \<Longrightarrow> to_size_t (int n) = n"
proof -
  assume "n < 2 ^ 64"
  then have "int n mod 2 ^ 64 = int n" by simp
  then show ?thesis unfolding to_size_t_def by simp
qed

lemma enc_arith:
  assumes "a < 33" "k < 33"
  shows "to_size_t (int a + int k) mod length numAlpha = (a + k) mod 33"
proof -
  have "to_size_t (int (a + k)) = a + k"
    using assms by (intro to_size_t_int) simp
  then show ?thesis by (simp add: length_numAlpha)
qed

lemma dec_arith:
  assumes "a < 33" "k < 33"
  shows "((to_size_t (int a) + length numAlpha + 2 ^ 64 - to_size_t (int k)) mod 2 ^ 64) mod length numAlpha
     = (a + 33 - k) mod 33"
proof -
  have a: "to_size_t (int a) = a" and k: "to_size_t (int k) = k"
    using assms by (simp_all add: to_size_t_int)
  have "a + 33 + 2 ^ 64 - k = (a + 33 - k) + 1 * 2 ^ 64"
    using assms by simp
  then have "(a + 33 + 2 ^ 64 - k) mod 2 ^ 64 = (a + 33 - k) mod 2 ^ 64"
    by (simp only: mod_mult_self1)
  also have "\<dots> = a + 33 - k" using assms by simp
  finally show ?thesis by (simp add: a k length_numAlpha)
qed

lemma convert_v_map_int:
  "(\<And>i. i \<in> set is \<Longrightarrow> f i < 33) \<Longrightarrow> convert_v (map (\<lambda>i. int (f i)) is) = map (\<lambda>i. numAlpha ! f i) is"
  by (induction "is") (simp_all add: length_numAlpha)


lemma obtain_key:
  assumes c: "modAlphaCipher skey = Inr c"
  obtains k where "key c ! (i mod length (key c)) = int k" "k < 33"
proof -
  have "0 \<le> key c ! (i mod length (key c))" "key c ! (i mod length (key c)) < 33"
    using key_nth_range[OF c, of i] by auto
  then have "key c ! (i mod length (key c)) = int (nat (key c ! (i mod length (key c))))"
       "nat (key c ! (i mod length (key c))) < 33" by auto
  then show ?thesis using that by blast
qed

lemma encrypt_formula:
  assumes c: "modAlphaCipher skey = Inr c" and v: "getValidOpenText text = Inr v"
  shows "modAlphaCipher_encrypt c text =
           Inr (map (\<lambda>i. numAlpha ! ((index_of (v ! i) + nat (key c ! (i mod length (key c)))) mod 33)) [0..<length v])"
proof -
  have up: "\<forall>ch\<in>set v. isUpperChar ch"
    using v by (auto simp: getValidOpenText_eq isUpper_toUpper split: if_splits)
  let ?w = "map (\<lambda>ch. int (index_of ch)) v"
  let ?h = "\<lambda>i x. int (to_size_t (x + key c ! (i mod length (key c))) mod length numAlpha)"
  let ?g = "\<lambda>i. (index_of (v ! i) + nat (key c ! (i mod length (key c)))) mod 33"
  have w: "convert_s (alphaNum c) v = ?w"
    using up by (simp add: valid_cipher(1)[OF c] convert_s_upper)
  have len: "length ?w = length v"
    by (rule length_map)
  have loop: "fold (\<lambda>i w. w[i := encrypt_at c w i]) [0..<length ?w] ?w =
               map (\<lambda>i. ?h i (?w ! i)) [0..<length v]"
    unfolding encrypt_at_def by (subst fold_update_all) (simp only: len)
  have h: "?h i (?w ! i) = int (?g i)" if "i < length v" for i
  proof -
    have a: "index_of (v ! i) < 33"
      using that up by (simp add: index_of_less isUpperChar_iff)
    obtain k where k: "key c ! (i mod length (key c)) = int k" "k < 33"
      using obtain_key[OF c] by blast
    have wi: "?w ! i = int (index_of (v ! i))"
      using that by (rule nth_map)
    show ?thesis
      by (simp only: wi k enc_arith[OF a k(2)] nat_int)
  qed
  have "modAlphaCipher_encrypt c text = Inr (convert_v (map (\<lambda>i. ?h i (?w ! i)) [0..<length v]))"
    unfolding modAlphaCipher_encrypt_def by (simp only: v w loop sum.case Let_def)
  also have "map (\<lambda>i. ?h i (?w ! i)) [0..<length v] = map (\<lambda>i. int (?g i)) [0..<length v]"
  proof (rule map_cong[OF refl])
    fix i assume "i \<in> set [0..<length v]"
    then have "i < length v" by simp
    then show "?h i (?w ! i) = int (?g i)" by (rule h)
  qed
  also have "convert_v \<dots> = map (\<lambda>i. numAlpha ! ?g i) [0..<length v]"
  proof (rule convert_v_map_int)
    fix i show "?g i < 33" by (rule mod_less_divisor) simp
  qed
  finally show ?thesis .
qed

lemma decrypt_formula:
  assumes c: "modAlphaCipher skey = Inr c" and v: "getValidCipherText text = Inr v"
  shows "modAlphaCipher_decrypt c text =
           Inr (map (\<lambda>i. numAlpha ! ((index_of (v ! i) + 33 - nat (key c ! (i mod length (key c)))) mod 33)) [0..<length v])"
proof -
  have up: "\<forall>ch\<in>set v. isUpperChar ch"
    using v by (auto simp: getValidCipherText_eq split: if_splits)
  let ?w = "map (\<lambda>ch. int (index_of ch)) v"
  let ?h = "\<lambda>i x. int (((to_size_t x + length numAlpha + 2 ^ 64 - to_size_t (key c ! (i mod length (key c)))) mod 2 ^ 64) mod length numAlpha)"
  let ?g = "\<lambda>i. (index_of (v ! i) + 33 - nat (key c ! (i mod length (key c)))) mod 33"
  have w: "convert_s (alphaNum c) v = ?w"
    using up by (simp add: valid_cipher(1)[OF c] convert_s_upper)
  have len: "length ?w = length v"
    by (rule length_map)
  have loop: "fold (\<lambda>i w. w[i := decrypt_at c w i]) [0..<length ?w] ?w =
               map (\<lambda>i. ?h i (?w ! i)) [0..<length v]"
    unfolding decrypt_at_def by (subst fold_update_all) (simp only: len)
  have h: "?h i (?w ! i) = int (?g i)" if "i < length v" for i
  proof -
    have a: "index_of (v ! i) < 33"
      using that up by (simp add: index_of_less isUpperChar_iff)
    obtain k where k: "key c ! (i mod length (key c)) = int k" "k < 33"
      using obtain_key[OF c] by blast
    have wi: "?w ! i = int (index_of (v ! i))"
      using that by (rule nth_map)
    show ?thesis
      by (simp only: wi k dec_arith[OF a k(2)] nat_int)
  qed
  have "modAlphaCipher_decrypt c text = Inr (convert_v (map (\<lambda>i. ?h i (?w ! i)) [0..<length v]))"
    unfolding modAlphaCipher_decrypt_def by (simp only: v w loop sum.case Let_def)
  also have "map (\<lambda>i. ?h i (?w ! i)) [0..<length v] = map (\<lambda>i. int (?g i)) [0..<length v]"
  proof (rule map_cong[OF refl])
    fix i assume "i \<in> set [0..<length v]"
    then have "i < length v" by simp
    then show "?h i (?w ! i) = int (?g i)" by (rule h)
  qed
  also have "convert_v \<dots> = map (\<lambda>i. numAlpha ! ?g i) [0..<length v]"
  proof (rule convert_v_map_int)
    fix i show "?g i < 33" by (rule mod_less_divisor) simp
  qed
  finally show ?thesis .
qed

lemma shift_back: "a < 33 \<Longrightarrow> k < 33 \<Longrightarrow> ((a + k) mod 33 + 33 - k) mod 33 = (a::nat)"
proof (cases "a + k < 33")
  case True
  then have "(a + k) mod 33 + 33 - k = a + 1 * 33" by simp
  then show ?thesis by (simp only: mod_mult_self1) simp
next
  case False
  moreover assume "a < 33" "k < 33"
  ultimately have "(a + k) mod 33 = a + k - 33"
    by (simp add: mod_if)
  with False \<open>a < 33\<close> show ?thesis by simp
qed

lemma encrypt_upper:
  assumes c: "modAlphaCipher skey = Inr c" and e: "modAlphaCipher_encrypt c text = Inr ct"
  shows "\<exists>v. getValidOpenText text = Inr v \<and> length ct = length v \<and> (\<forall>ch\<in>set ct. ch \<in> set numAlpha)"
proof -
  obtain v where v: "getValidOpenText text = Inr v"
    using e unfolding modAlphaCipher_encrypt_def by (cases "getValidOpenText text") simp_all
  have "ct = map (\<lambda>i. numAlpha ! ((index_of (v ! i) + nat (key c ! (i mod length (key c)))) mod 33))
                  [0..<length v]"
    using encrypt_formula[OF c v] e by simp
  then have "length ct = length v" and "\<forall>ch\<in>set ct. ch \<in> set numAlpha"
    by (auto simp: length_numAlpha)
  with v show ?thesis by blast
qed

lemma encrypt_then_decrypt:
  assumes c: "modAlphaCipher skey = Inr c" and t: "\<exists>ch\<in>set text. isValidChar ch"
  shows "\<exists>ct. modAlphaCipher_encrypt c text = Inr ct \<and>
              modAlphaCipher_decrypt c ct = Inr (map toUpperChar (filter isValidChar text))"
proof -
  define v where "v = map toUpperChar (filter isValidChar text)"
  define kk where "kk = (\<lambda>i. nat (key c ! (i mod length (key c))))"
  define ct where "ct = map (\<lambda>i. numAlpha ! ((index_of (v ! i) + kk i) mod 33)) [0..<length v]"
  have v: "getValidOpenText text = Inr v"
    using t by (simp add: getValidOpenText_eq v_def)
  have vne: "v \<noteq> []"
    using t by (simp add: v_def filter_empty_conv)
  have up: "ch \<in> set numAlpha" if "ch \<in> set v" for ch
    using that by (auto simp: v_def isUpperChar_iff[symmetric] isUpper_toUpper)
  have kk: "kk i < 33" for i
    using key_nth_range[OF c, of i] by (simp add: kk_def)
  have enc: "modAlphaCipher_encrypt c text = Inr ct"
    using encrypt_formula[OF c v] by (simp add: ct_def kk_def)
  have len: "length ct = length v"
    by (simp add: ct_def)
  have ctu: "\<forall>ch\<in>set ct. isUpperChar ch"
    by (auto simp: ct_def isUpperChar_iff length_numAlpha)
  have gct: "getValidCipherText ct = Inr ct"
    using vne len ctu by (auto simp: getValidCipherText_eq)
  have undo: "numAlpha ! ((index_of (ct ! i) + 33 - kk i) mod 33) = v ! i" if "i < length v" for i
  proof -
    have a: "index_of (v ! i) < 33"
      using that up by (simp add: index_of_less)
    have "ct ! i = numAlpha ! ((index_of (v ! i) + kk i) mod 33)"
      using that by (simp add: ct_def)
    then have "index_of (ct ! i) = (index_of (v ! i) + kk i) mod 33"
      by (simp add: index_of_nth)
    then have "(index_of (ct ! i) + 33 - kk i) mod 33 = index_of (v ! i)"
      using shift_back[OF a kk] by simp
    then show ?thesis
      using that up by (simp add: nth_index_of)
  qed
  have "modAlphaCipher_decrypt c ct =
          Inr (map (\<lambda>i. numAlpha ! ((index_of (ct ! i) + 33 - kk i) mod 33)) [0..<length ct])"
    using decrypt_formula[OF c gct] by (simp add: kk_def)
  also have "map (\<lambda>i. numAlpha ! ((index_of (ct ! i) + 33 - kk i) mod 33)) [0..<length ct] =
             map (\<lambda>i. v ! i) [0..<length v]"
    unfolding len by (rule map_cong[OF refl]) (simp add: undo)
  also have "\<dots> = v"
    by (rule map_nth)
  finally show ?thesis
    using enc unfolding v_def by blast
qed

text \<open>
  Claim C3. For every key that the constructor accepts and every text with at least one
  letter of the alphabet, \<open>encrypt\<close> succeeds and \<open>decrypt\<close> maps its result back to
  the normalized text: the letters of the text, in order, in upper case.
\<close>

theorem modAlpha_roundtrip:
  assumes "modAlphaCipher skey = Inr c" and "\<exists>ch\<in>set open_text. isValidChar ch"
  shows "getValidOpenText open_text = Inr (map toUpperChar (filter isValidChar open_text)) \<and>
         (\<exists>ct. modAlphaCipher_encrypt c open_text = Inr ct \<and>
               modAlphaCipher_decrypt c ct =
                 Inr (map toUpperChar (filter isValidChar open_text)))"
  using assms encrypt_then_decrypt[of skey c open_text] by (simp add: getValidOpenText_eq)

theorem modAlpha_roundtrip_witness:
  "\<exists>ct. modAlphaCipher_encrypt \<lparr>alphaNum = init_alphaNum, key = [11, 12, 31, 24]\<rparr>
              [0x41F, 0x440, 0x438, 0x432, 0x435, 0x442, 0x21] = Inr ct \<and>
        modAlphaCipher_decrypt \<lparr>alphaNum = init_alphaNum, key = [11, 12, 31, 24]\<rparr> ct =
          Inr [0x41F, 0x420, 0x418, 0x412, 0x415, 0x422]"
proof -
  have c: "modAlphaCipher [0x41A, 0x41B, 0x42E, 0x427] =
             Inr \<lparr>alphaNum = init_alphaNum, key = [11, 12, 31, 24]\<rparr>"
    by (simp add: modAlphaCipher_eq isValidChar_def toUpperChar_def index_of_def numAlpha_def)
  have t: "\<exists>ch\<in>set [0x41F, 0x440, 0x438, 0x432, 0x435, 0x442, 0x21]. isValidChar ch"
    by (simp add: isValidChar_def)
  show ?thesis
    using modAlpha_roundtrip[OF c t] by (simp add: isValidChar_def toUpperChar_def)
qed

text \<open>
  Claim C1 says that a key of a single alphabet letter is accepted. The constructor
  rejects it: \<open>isWeakKey\<close> starts true, the scan is skipped for a key of size 1, and
  the test \<open>isWeakKey && validKey.size() > 0\<close> throws "Weak key". Here the key is the
  first letter of the alphabet, U+0410.
\<close>

theorem weak_key_single_letter: "modAlphaCipher [0x410] = Inl WeakKey"
  by (simp add: modAlphaCipher_eq isValidChar_def)

text \<open>
  A key written in Latin letters never reaches the weak-key test: its characters are
  not letters of the alphabet.
\<close>

lemma latin_key_invalid: "modAlphaCipher [0x41, 0x41, 0x41] = Inl InvalidKey"
  by (simp add: modAlphaCipher_eq isValidChar_def)

text \<open>
  Claim C1, amended. A key of three equal alphabet letters fails with \<open>WeakKey\<close> and
  the empty key fails with \<open>EmptyKey\<close>. In general the constructor fails with
  \<open>EmptyKey\<close> exactly for the empty key, with \<open>InvalidKey\<close> exactly for the
  non-empty keys that have a character outside the alphabet, and with \<open>WeakKey\<close>
  exactly for the non-empty keys of alphabet letters whose characters are all the same
  letter once uppercased. So a key of one character is never accepted (it fails with
  \<open>WeakKey\<close> when it is a letter and with \<open>InvalidKey\<close> otherwise), and the keys
  that are accepted are exactly the keys of alphabet letters with at least two
  different letters; they have at least two characters.
\<close>

theorem weak_key_rule:
  "modAlphaCipher [0x410, 0x410, 0x410] = Inl WeakKey \<and>
   modAlphaCipher [] = Inl EmptyKey \<and>
   (modAlphaCipher skey = Inl WeakKey \<longleftrightarrow>
      skey \<noteq> [] \<and> (\<forall>ch\<in>set skey. isValidChar ch) \<and>
      (\<forall>ch\<in>set skey. toUpperChar ch = toUpperChar (hd skey))) \<and>
   (length skey = 1 \<and> isValidChar (hd skey) \<longrightarrow> modAlphaCipher skey = Inl WeakKey) \<and>
   (length skey = 1 \<longrightarrow>
      modAlphaCipher skey = Inl WeakKey \<or> modAlphaCipher skey = Inl InvalidKey) \<and>
   (modAlphaCipher skey = Inl EmptyKey \<longleftrightarrow> skey = []) \<and>
   (modAlphaCipher skey = Inl InvalidKey \<longleftrightarrow>
      skey \<noteq> [] \<and> (\<exists>ch\<in>set skey. \<not> isValidChar ch)) \<and>
   (modAlphaCipher skey = Inr c \<longrightarrow>
      2 \<le> length skey \<and> (\<forall>ch\<in>set skey. isValidChar ch) \<and>
      \<not> (\<forall>ch\<in>set skey. toUpperChar ch = toUpperChar (hd skey))) \<and>
   (skey \<noteq> [] \<and> (\<forall>ch\<in>set skey. isValidChar ch) \<and>
      \<not> (\<forall>ch\<in>set skey. toUpperChar ch = toUpperChar (hd skey)) \<longrightarrow>
      modAlphaCipher skey =
        Inr \<lparr>alphaNum = init_alphaNum,
             key = map (\<lambda>ch. int (index_of (toUpperChar ch))) skey\<rparr>) \<and>
   (\<forall>e. modAlphaCipher skey = Inl e \<longrightarrow> e = EmptyKey \<or> e = InvalidKey \<or> e = WeakKey)"
proof -
  have 1: "modAlphaCipher [0x410, 0x410, 0x410] = Inl WeakKey"
    by (simp add: modAlphaCipher_eq isValidChar_def)
  have 2: "modAlphaCipher [] = Inl EmptyKey"
    by (simp add: modAlphaCipher_eq)
  have 3: "modAlphaCipher skey = Inl WeakKey \<longleftrightarrow>
      skey \<noteq> [] \<and> (\<forall>ch\<in>set skey. isValidChar ch) \<and>
      (\<forall>ch\<in>set skey. toUpperChar ch = toUpperChar (hd skey))"
    unfolding modAlphaCipher_eq by (simp only: split: if_split) blast
  have one: "\<forall>ch\<in>set skey. toUpperChar ch = toUpperChar (hd skey)" if "length skey = 1"
  proof -
    from that obtain ch where "skey = [ch]"
      by (cases skey) auto
    then show ?thesis by simp
  qed
  have 4: "length skey = 1 \<and> isValidChar (hd skey) \<longrightarrow> modAlphaCipher skey = Inl WeakKey"
  proof
    assume a: "length skey = 1 \<and> isValidChar (hd skey)"
    then obtain ch where "skey = [ch]" by (cases skey) auto
    with a show "modAlphaCipher skey = Inl WeakKey"
      by (simp add: modAlphaCipher_eq)
  qed
  have 5: "length skey = 1 \<longrightarrow>
      modAlphaCipher skey = Inl WeakKey \<or> modAlphaCipher skey = Inl InvalidKey"
  proof
    assume a: "length skey = 1"
    then obtain ch where "skey = [ch]" by (cases skey) auto
    then show "modAlphaCipher skey = Inl WeakKey \<or> modAlphaCipher skey = Inl InvalidKey"
      by (simp add: modAlphaCipher_eq)
  qed
  have 6: "modAlphaCipher skey = Inl EmptyKey \<longleftrightarrow> skey = []"
    unfolding modAlphaCipher_eq by (simp only: split: if_split) blast
  have 7: "modAlphaCipher skey = Inl InvalidKey \<longleftrightarrow>
      skey \<noteq> [] \<and> (\<exists>ch\<in>set skey. \<not> isValidChar ch)"
    unfolding modAlphaCipher_eq by (simp only: split: if_split) blast
  have acc: "skey \<noteq> [] \<and> (\<forall>ch\<in>set skey. isValidChar ch) \<and>
      \<not> (\<forall>ch\<in>set skey. toUpperChar ch = toUpperChar (hd skey))"
    if "modAlphaCipher skey = Inr c"
    using that unfolding modAlphaCipher_eq by (simp only: split: if_split_asm) blast+
  have 8: "modAlphaCipher skey = Inr c \<longrightarrow>
      2 \<le> length skey \<and> (\<forall>ch\<in>set skey. isValidChar ch) \<and>
      \<not> (\<forall>ch\<in>set skey. toUpperChar ch = toUpperChar (hd skey))"
  proof
    assume "modAlphaCipher skey = Inr c"
    from acc[OF this] have ne: "skey \<noteq> []" and ok: "\<forall>ch\<in>set skey. isValidChar ch"
      and nw: "\<not> (\<forall>ch\<in>set skey. toUpperChar ch = toUpperChar (hd skey))"
      by blast+
    have "length skey \<noteq> 1"
      using one nw by blast
    moreover have "length skey \<noteq> 0"
      using ne by simp
    ultimately have "2 \<le> length skey"
      by arith
    with ok nw show "2 \<le> length skey \<and> (\<forall>ch\<in>set skey. isValidChar ch) \<and>
      \<not> (\<forall>ch\<in>set skey. toUpperChar ch = toUpperChar (hd skey))"
      by blast
  qed
  have 9: "skey \<noteq> [] \<and> (\<forall>ch\<in>set skey. isValidChar ch) \<and>
      \<not> (\<forall>ch\<in>set skey. toUpperChar ch = toUpperChar (hd skey)) \<longrightarrow>
      modAlphaCipher skey =
        Inr \<lparr>alphaNum = init_alphaNum,
             key = map (\<lambda>ch. int (index_of (toUpperChar ch))) skey\<rparr>"
    unfolding modAlphaCipher_eq by (simp only: split: if_split) blast
  have 10: "\<forall>e. modAlphaCipher skey = Inl e \<longrightarrow> e = EmptyKey \<or> e = InvalidKey \<or> e = WeakKey"
    unfolding modAlphaCipher_eq by (simp only: split: if_split) blast
  from 1 2 3 4 5 6 7 8 9 10 show ?thesis
    by (intro conjI)
qed

theorem weak_key_rule_witness:
  "modAlphaCipher [0x43A, 0x41A] = Inl WeakKey \<and> modAlphaCipher [0x44F] = Inl WeakKey \<and>
   modAlphaCipher [0x31] = Inl InvalidKey \<and>
   modAlphaCipher [0x43A, 0x41B] =
     Inr \<lparr>alphaNum = init_alphaNum,
          key = map (\<lambda>ch. int (index_of (toUpperChar ch))) [0x43A, 0x41B]\<rparr>"
proof -
  have a: "[0x43A, 0x41A] \<noteq> [] \<and> (\<forall>ch\<in>set [0x43A, 0x41A]. isValidChar ch) \<and>
      (\<forall>ch\<in>set [0x43A, 0x41A]. toUpperChar ch = toUpperChar (hd [0x43A, 0x41A]))"
    by (simp add: isValidChar_def toUpperChar_def)
  have b: "length [0x44F :: int] = 1 \<and> isValidChar (hd [0x44F])"
    by (simp add: isValidChar_def)
  have d: "[0x31] \<noteq> [] \<and> (\<exists>ch\<in>set [0x31]. \<not> isValidChar ch)"
    by (simp add: isValidChar_def)
  have g: "[0x43A, 0x41B] \<noteq> [] \<and> (\<forall>ch\<in>set [0x43A, 0x41B]. isValidChar ch) \<and>
      \<not> (\<forall>ch\<in>set [0x43A, 0x41B]. toUpperChar ch = toUpperChar (hd [0x43A, 0x41B]))"
    by (simp add: isValidChar_def toUpperChar_def)
  have 1: "modAlphaCipher [0x43A, 0x41A] = Inl WeakKey"
    using weak_key_rule[of "[0x43A, 0x41A]"] a by blast
  have 2: "modAlphaCipher [0x44F] = Inl WeakKey"
    using weak_key_rule[of "[0x44F]"] b by blast
  have 3: "modAlphaCipher [0x31] = Inl InvalidKey"
    using weak_key_rule[of "[0x31]"] d by blast
  have 4: "modAlphaCipher [0x43A, 0x41B] =
     Inr \<lparr>alphaNum = init_alphaNum,
          key = map (\<lambda>ch. int (index_of (toUpperChar ch))) [0x43A, 0x41B]\<rparr>"
    using weak_key_rule[of "[0x43A, 0x41B]"] g by blast
  from 1 2 3 4 show ?thesis
    by (intro conjI)
qed

text \<open>
  Claim C6. For a cipher built from \<open>skey\<close>, the key indices are the alphabet
  positions of the uppercased key letters, each below 33. \<open>encrypt\<close> replaces the
  \<open>i\<close>-th letter of the filtered text, of alphabet index \<open>v\<close>, by the letter at
  index \<open>(v + k (i mod m)) mod 33\<close>; \<open>decrypt\<close> replaces the \<open>i\<close>-th letter of the
  cipher text by the letter at index \<open>(v + 33 - k (i mod m)) mod 33\<close>; the outputs
  keep the order of the input.
\<close>

theorem shift_formulas:
  assumes c: "modAlphaCipher skey = Inr c"
  shows "key c = map (\<lambda>ch. int (index_of (toUpperChar ch))) skey \<and>
         (\<forall>k\<in>set (key c). 0 \<le> k \<and> k < 33) \<and>
         (getValidOpenText text = Inr v \<longrightarrow>
            (\<forall>i<length v. numAlpha ! index_of (v ! i) = v ! i) \<and>
            modAlphaCipher_encrypt c text =
              Inr (map (\<lambda>i. numAlpha !
                         ((index_of (v ! i) + nat (key c ! (i mod length (key c)))) mod 33))
                     [0..<length v])) \<and>
         (getValidCipherText text = Inr w \<longrightarrow>
            (\<forall>i<length w. numAlpha ! index_of (w ! i) = w ! i) \<and>
            modAlphaCipher_decrypt c text =
              Inr (map (\<lambda>i. numAlpha !
                         ((index_of (w ! i) + 33 - nat (key c ! (i mod length (key c)))) mod 33))
                     [0..<length w]))"
proof -
  have "\<forall>i<length v. numAlpha ! index_of (v ! i) = v ! i" if "getValidOpenText text = Inr v"
  proof -
    have "\<forall>ch\<in>set v. ch \<in> set numAlpha"
      using that
      by (auto simp: getValidOpenText_eq isUpperChar_iff[symmetric] isUpper_toUpper
            split: if_splits)
    then show ?thesis by (simp add: nth_index_of)
  qed
  moreover have "\<forall>i<length w. numAlpha ! index_of (w ! i) = w ! i"
    if "getValidCipherText text = Inr w"
  proof -
    have "\<forall>ch\<in>set w. ch \<in> set numAlpha"
      using that
      by (auto simp: getValidCipherText_eq isUpperChar_iff[symmetric] split: if_splits)
    then show ?thesis by (simp add: nth_index_of)
  qed
  ultimately show ?thesis
    using valid_cipher(3,4)[OF c] encrypt_formula[OF c] decrypt_formula[OF c] by blast
qed

theorem shift_formulas_witness:
  "modAlphaCipher_encrypt \<lparr>alphaNum = init_alphaNum, key = [11, 12, 31, 24]\<rparr>
     [0x41F, 0x440, 0x438, 0x432, 0x435, 0x442, 0x21] =
     Inr [0x42A, 0x42C, 0x416, 0x429, 0x41F, 0x42E] \<and>
   modAlphaCipher_decrypt \<lparr>alphaNum = init_alphaNum, key = [11, 12, 31, 24]\<rparr>
     [0x42A, 0x42C, 0x416, 0x429, 0x41F, 0x42E] =
     Inr [0x41F, 0x420, 0x418, 0x412, 0x415, 0x422]"
proof -
  let ?c = "\<lparr>alphaNum = init_alphaNum, key = [11, 12, 31, 24]\<rparr>"
  let ?v = "[0x41F, 0x420, 0x418, 0x412, 0x415, 0x422] :: wstring"
  let ?w = "[0x42A, 0x42C, 0x416, 0x429, 0x41F, 0x42E] :: wstring"
  have c: "modAlphaCipher [0x41A, 0x41B, 0x42E, 0x427] = Inr ?c"
    by (simp add: modAlphaCipher_eq isValidChar_def toUpperChar_def index_of_def numAlpha_def)
  have v: "getValidOpenText [0x41F, 0x440, 0x438, 0x432, 0x435, 0x442, 0x21] = Inr ?v"
    by (simp add: getValidOpenText_eq isValidChar_def toUpperChar_def)
  have w: "getValidCipherText ?w = Inr ?w"
    by (simp add: getValidCipherText_eq isUpperChar_def)
  have ev: "map (\<lambda>i. numAlpha ! ((index_of (?v ! i) + nat (key ?c ! (i mod length (key ?c)))) mod 33))
              [0..<length ?v] = ?w"
    by code_simp
  have dv: "map (\<lambda>i. numAlpha !
                   ((index_of (?w ! i) + 33 - nat (key ?c ! (i mod length (key ?c)))) mod 33))
              [0..<length ?w] = ?v"
    by code_simp
  have "modAlphaCipher_encrypt ?c [0x41F, 0x440, 0x438, 0x432, 0x435, 0x442, 0x21] = Inr ?w"
    using shift_formulas[OF c, of "[0x41F, 0x440, 0x438, 0x432, 0x435, 0x442, 0x21]" ?v] v
    by (simp only: ev)
  moreover have "modAlphaCipher_decrypt ?c ?w = Inr ?v"
    using shift_formulas[OF c, of ?w _ ?w] w
    by (simp only: dv)
  ultimately show ?thesis by (rule conjI)
qed

text \<open>
  Claim C7. \<open>decrypt\<close> fails with \<open>EmptyText\<close> on the empty input and with
  \<open>InvalidCipherText\<close> on a non-empty input that has a character which is not an
  upper-case alphabet letter, in particular a lower-case letter; it fails with
  \<open>InvalidCipherText\<close> for no other reason, and its validation returns the input
  unchanged, neither filtered nor uppercased.
\<close>

theorem decrypt_is_strict:
  "modAlphaCipher_decrypt c [] = Inl EmptyText \<and>
   (s \<noteq> [] \<and> (\<exists>ch\<in>set s. \<not> isUpperChar ch) \<longrightarrow>
      modAlphaCipher_decrypt c s = Inl InvalidCipherText) \<and>
   ((\<exists>ch\<in>set s. isValidChar ch \<and> toUpperChar ch \<noteq> ch) \<longrightarrow>
      modAlphaCipher_decrypt c s = Inl InvalidCipherText) \<and>
   (modAlphaCipher_decrypt c s = Inl InvalidCipherText \<longrightarrow> (\<exists>ch\<in>set s. \<not> isUpperChar ch)) \<and>
   (getValidCipherText s = Inr v \<longrightarrow> v = s)"
proof -
  have low: "\<not> isUpperChar ch" if "toUpperChar ch \<noteq> ch" for ch
    using that toUpper_upper by blast
  have 1: "modAlphaCipher_decrypt c [] = Inl EmptyText"
    by (simp add: modAlphaCipher_decrypt_def getValidCipherText_eq)
  have 2: "modAlphaCipher_decrypt c s = Inl InvalidCipherText"
    if "s \<noteq> []" "\<exists>ch\<in>set s. \<not> isUpperChar ch"
    using that by (simp add: modAlphaCipher_decrypt_def getValidCipherText_eq)
  have 3: "modAlphaCipher_decrypt c s = Inl InvalidCipherText"
    if "\<exists>ch\<in>set s. isValidChar ch \<and> toUpperChar ch \<noteq> ch"
  proof -
    from that have "s \<noteq> []" "\<exists>ch\<in>set s. \<not> isUpperChar ch"
      using low by auto
    then show ?thesis by (rule 2)
  qed
  have 4: "\<exists>ch\<in>set s. \<not> isUpperChar ch" if "modAlphaCipher_decrypt c s = Inl InvalidCipherText"
    using that
    by (auto simp: modAlphaCipher_decrypt_def getValidCipherText_eq Let_def split: if_splits)
  have 5: "v = s" if "getValidCipherText s = Inr v"
    using that by (auto simp: getValidCipherText_eq split: if_splits)
  from 1 2 3 4 5 show ?thesis by blast
qed

theorem decrypt_is_strict_witness:
  "modAlphaCipher_decrypt \<lparr>alphaNum = init_alphaNum, key = [11, 12, 31, 24]\<rparr>
     [0x41F, 0x440] = Inl InvalidCipherText \<and>
   modAlphaCipher_decrypt \<lparr>alphaNum = init_alphaNum, key = [11, 12, 31, 24]\<rparr>
     [0x41F, 0x31] = Inl InvalidCipherText"
proof -
  let ?c = "\<lparr>alphaNum = init_alphaNum, key = [11, 12, 31, 24]\<rparr>"
  have a: "\<exists>ch\<in>set [0x41F, 0x440]. isValidChar ch \<and> toUpperChar ch \<noteq> ch"
    by (simp add: isValidChar_def toUpperChar_def)
  have b: "[0x41F, 0x31] \<noteq> [] \<and> (\<exists>ch\<in>set [0x41F, 0x31]. \<not> isUpperChar ch)"
    by (simp add: isUpperChar_def)
  show ?thesis
    using a b decrypt_is_strict[of ?c "[0x41F, 0x440]"] decrypt_is_strict[of ?c "[0x41F, 0x31]"]
    by blast
qed

text \<open>
  Claim C9. For a cipher that the constructor built, an output of \<open>encrypt\<close> consists
  of upper-case letters of the alphabet only and is as long as the filtered input, so
  \<open>decrypt\<close> accepts it: it never answers \<open>InvalidCipherText\<close>.
\<close>

theorem encrypt_output_is_cipher_text:
  assumes c: "modAlphaCipher skey = Inr c" and e: "modAlphaCipher_encrypt c text = Inr ct"
  shows "(\<forall>ch\<in>set ct. isUpperChar ch \<and> ch \<in> set numAlpha) \<and>
         length ct = length (filter isValidChar text) \<and>
         getValidOpenText text = Inr (map toUpperChar (filter isValidChar text)) \<and>
         modAlphaCipher_decrypt c ct \<noteq> Inl InvalidCipherText \<and>
         (\<exists>p. modAlphaCipher_decrypt c ct = Inr p)"
proof -
  obtain v where v: "getValidOpenText text = Inr v" "length ct = length v"
      and ct: "\<forall>ch\<in>set ct. ch \<in> set numAlpha"
    using encrypt_upper[OF c e] by blast
  have t: "\<exists>ch\<in>set text. isValidChar ch" and veq: "v = map toUpperChar (filter isValidChar text)"
    using v(1) by (auto simp: getValidOpenText_eq split: if_splits)
  obtain ct' where "modAlphaCipher_encrypt c text = Inr ct'"
     "modAlphaCipher_decrypt c ct' = Inr (map toUpperChar (filter isValidChar text))"
    using encrypt_then_decrypt[OF c t] by blast
  with e have "modAlphaCipher_decrypt c ct = Inr (map toUpperChar (filter isValidChar text))"
    by simp
  with v ct veq show ?thesis
    by (simp add: isUpperChar_iff)
qed

theorem encrypt_output_is_cipher_text_witness:
  "list_all (\<lambda>ch. isUpperChar ch \<and> ch \<in> set numAlpha)
     [0x42A, 0x42C, 0x416, 0x429, 0x41F, 0x42E] \<and>
   length [0x42A, 0x42C, 0x416, 0x429, 0x41F, 0x42E :: int] =
     length (filter isValidChar [0x41F, 0x440, 0x438, 0x432, 0x435, 0x442, 0x21]) \<and>
   modAlphaCipher_decrypt \<lparr>alphaNum = init_alphaNum, key = [11, 12, 31, 24]\<rparr>
     [0x42A, 0x42C, 0x416, 0x429, 0x41F, 0x42E] \<noteq> Inl InvalidCipherText"
proof -
  let ?c = "\<lparr>alphaNum = init_alphaNum, key = [11, 12, 31, 24]\<rparr>"
  let ?v = "[0x41F, 0x420, 0x418, 0x412, 0x415, 0x422] :: wstring"
  let ?w = "[0x42A, 0x42C, 0x416, 0x429, 0x41F, 0x42E] :: wstring"
  have c: "modAlphaCipher [0x41A, 0x41B, 0x42E, 0x427] = Inr ?c"
    by (simp add: modAlphaCipher_eq isValidChar_def toUpperChar_def index_of_def numAlpha_def)
  have v: "getValidOpenText [0x41F, 0x440, 0x438, 0x432, 0x435, 0x442, 0x21] = Inr ?v"
    by (simp add: getValidOpenText_eq isValidChar_def toUpperChar_def)
  have ev: "map (\<lambda>i. numAlpha ! ((index_of (?v ! i) + nat (key ?c ! (i mod length (key ?c)))) mod 33))
              [0..<length ?v] = ?w"
    by code_simp
  have e: "modAlphaCipher_encrypt ?c [0x41F, 0x440, 0x438, 0x432, 0x435, 0x442, 0x21] = Inr ?w"
    using encrypt_formula[OF c v] by (simp only: ev)
  show ?thesis
    using encrypt_output_is_cipher_text[OF c e] unfolding list_all_iff by blast
qed

section \<open>Properties of the route cipher\<close>

lemma dims_new_table: "dims (new_table r k x) r k"
  by (simp add: dims_def new_table_def)

lemma dims_set_cell: "dims t r k \<Longrightarrow> dims (set_cell t i j x) r k"
proof (cases "i < length t")
  case True
  assume "dims t r k"
  with True show ?thesis
    by (auto simp: dims_def set_cell_def dest!: set_update_subset_insert[THEN subsetD])
next
  case False
  assume "dims t r k"
  with False show ?thesis
    by (auto simp: dims_def set_cell_def list_update_beyond)
qed

lemma cell_set_cell:
  "dims t r k \<Longrightarrow> i < r \<Longrightarrow> j < k \<Longrightarrow>
   cell (set_cell t i j x) i' j' = (if i' = i \<and> j' = j then x else cell t i' j')"
  by (auto simp: dims_def cell_def set_cell_def nth_list_update)

lemma cell_new_table: "i < r \<Longrightarrow> j < k \<Longrightarrow> cell (new_table r k x) i j = x"
  by (simp add: cell_def new_table_def)

lemma write_cells_Nil: "write_cells P xs [] st = st"
  by (simp add: write_cells_def)

lemma write_cells_Cons:
  "write_cells P xs ((i, j) # cs) (tbl, idx) =
     write_cells P xs cs
       (if P i j \<and> idx < length xs then (set_cell tbl i j (xs ! idx), idx + 1) else (tbl, idx))"
  by (simp add: write_cells_def)

lemma write_cells_dims:
  "dims tbl r k \<Longrightarrow> dims (fst (write_cells P xs cells (tbl, idx))) r k"
proof (induction cells arbitrary: tbl idx)
  case Nil
  then show ?case by (simp add: write_cells_Nil)
next
  case (Cons c cs)
  obtain i j where c: "c = (i, j)" by (cases c)
  show ?case
    unfolding c write_cells_Cons using Cons.prems
    by (auto intro!: Cons.IH dims_set_cell)
qed

lemma write_cells_unchanged:
  assumes "dims tbl r k" and "\<forall>(a, b)\<in>set cells. a < r \<and> b < k"
    and "i < r" "j < k"
    and "(i, j) \<notin> set (take (length xs - idx) (filter (\<lambda>(a, b). P a b) cells))"
  shows "cell (fst (write_cells P xs cells (tbl, idx))) i j = cell tbl i j"
  using assms
proof (induction cells arbitrary: tbl idx)
  case Nil
  then show ?case by (simp add: write_cells_Nil)
next
  case (Cons c cs)
  obtain a b where c: "c = (a, b)" by (cases c)
  have rng: "a < r" "b < k" "\<forall>(a, b)\<in>set cs. a < r \<and> b < k"
    using Cons.prems(2) by (auto simp: c)
  show ?case
  proof (cases "P a b \<and> idx < length xs")
    case True
    let ?t = "set_cell tbl a b (xs ! idx)"
    have tk: "take (length xs - idx) (filter (\<lambda>(a, b). P a b) (c # cs)) =
               c # take (length xs - Suc idx) (filter (\<lambda>(a, b). P a b) cs)"
      using True by (simp add: c take_Cons')
    have ne: "(i, j) \<noteq> (a, b)"
      and nin: "(i, j) \<notin> set (take (length xs - Suc idx) (filter (\<lambda>(a, b). P a b) cs))"
      using Cons.prems(5) unfolding tk by (auto simp: c)
    have "cell (fst (write_cells P xs cs (?t, Suc idx))) i j = cell ?t i j"
      using nin by (intro Cons.IH dims_set_cell Cons.prems(1) rng Cons.prems(3,4))
    also have "\<dots> = cell tbl i j"
      using ne by (auto simp: cell_set_cell[OF Cons.prems(1) rng(1,2)])
    finally show ?thesis
      using True by (simp add: c write_cells_Cons)
  next
    case False
    have sub: "set (take (length xs - idx) (filter (\<lambda>(a, b). P a b) cs)) \<subseteq>
               set (take (length xs - idx) (filter (\<lambda>(a, b). P a b) (c # cs)))"
    proof (cases "P a b")
      case True
      with False have "length xs - idx = 0" by simp
      then show ?thesis by simp
    next
      case False
      then show ?thesis by (simp add: c)
    qed
    have "cell (fst (write_cells P xs cs (tbl, idx))) i j = cell tbl i j"
      using sub Cons.prems(5) by (intro Cons.IH Cons.prems(1) rng Cons.prems(3,4)) blast
    then show ?thesis
      using False by (auto simp: c write_cells_Cons)
  qed
qed

lemma write_cells_written:
  assumes "dims tbl r k" and "\<forall>(a, b)\<in>set cells. a < r \<and> b < k" and "distinct cells"
    and "p < length (filter (\<lambda>(a, b). P a b) cells)" and "idx + p < length xs"
  shows "(case filter (\<lambda>(a, b). P a b) cells ! p of
            (i, j) \<Rightarrow> cell (fst (write_cells P xs cells (tbl, idx))) i j) = xs ! (idx + p)"
  using assms
proof (induction cells arbitrary: tbl idx p)
  case Nil
  then show ?case by simp
next
  case (Cons c cs)
  obtain a b where c: "c = (a, b)" by (cases c)
  have rng: "a < r" "b < k" "\<forall>(a, b)\<in>set cs. a < r \<and> b < k"
    using Cons.prems(2) by (auto simp: c)
  have dist: "distinct cs" "(a, b) \<notin> set cs"
    using Cons.prems(3) by (auto simp: c)
  show ?case
  proof (cases "P a b")
    case True
    have idx: "idx < length xs"
      using Cons.prems(5) by simp
    let ?t = "set_cell tbl a b (xs ! idx)"
    have step: "write_cells P xs (c # cs) (tbl, idx) = write_cells P xs cs (?t, Suc idx)"
      using True idx by (simp add: c write_cells_Cons)
    show ?thesis
    proof (cases p)
      case 0
      have "(a, b) \<notin> set (take (length xs - Suc idx) (filter (\<lambda>(a, b). P a b) cs))"
        using dist(2) by (auto dest: in_set_takeD)
      then have "cell (fst (write_cells P xs cs (?t, Suc idx))) a b = cell ?t a b"
        by (intro write_cells_unchanged[where r = r and k = k] dims_set_cell Cons.prems(1) rng)
      also have "\<dots> = xs ! idx"
        by (simp add: cell_set_cell[OF Cons.prems(1) rng(1,2)])
      finally show ?thesis
        using True 0 by (simp add: step) (simp add: c)
    next
      case (Suc q)
      have "(case filter (\<lambda>(a, b). P a b) cs ! q of
              (i, j) \<Rightarrow> cell (fst (write_cells P xs cs (?t, Suc idx))) i j) = xs ! (Suc idx + q)"
        using Cons.prems(4,5) True Suc
        by (intro Cons.IH dims_set_cell Cons.prems(1) rng dist) (simp_all add: c)
      then show ?thesis
        using True Suc by (simp add: step) (simp add: c)
    qed
  next
    case False
    have "(case filter (\<lambda>(a, b). P a b) cs ! p of
              (i, j) \<Rightarrow> cell (fst (write_cells P xs cs (tbl, idx))) i j) = xs ! (idx + p)"
      using Cons.prems(4,5) False
      by (intro Cons.IH Cons.prems(1) rng dist) (simp_all add: c)
    then show ?thesis
      using False by (simp add: c write_cells_Cons)
  qed
qed

lemma nested_fold_product:
  "fold (\<lambda>i. fold (f i) ys) xs = fold (\<lambda>(i, j). f i j) (List.product xs ys)"
  by (induction xs) (simp_all add: fold_map comp_def)

lemma fold_snoc_filter:
  "fold (\<lambda>x res. if Q x then res @ [g x] else res) xs acc = acc @ map g (filter Q xs)"
  by (induction xs arbitrary: acc) simp_all

lemma fill_rows_eq:
  "fill_rows v r k =
     fst (write_cells (\<lambda>_ _. True) v (row_major r k) (new_table r k CHR '' '', 0))"
  by (simp add: fill_rows_def write_cells_def row_major_def nested_fold_product)

lemma mark_filled_eq:
  "mark_filled n r k =
     fst (write_cells (\<lambda>_ _. True) (replicate n True) (row_major r k) (new_table r k False, 0))"
proof -
  have "(\<lambda>(i, j) (filled, total_filled).
           if total_filled < n then (set_cell filled i j True, total_filled + 1)
           else (filled, total_filled)) =
        (\<lambda>(i, j) (tbl, idx).
           if True \<and> idx < length (replicate n True)
           then (set_cell tbl i j (replicate n True ! idx), idx + 1) else (tbl, idx))"
    by (auto simp: fun_eq_iff)
  then show ?thesis
    by (simp add: mark_filled_def write_cells_def row_major_def nested_fold_product)
qed

lemma write_columns_eq:
  "write_columns v filled r k =
     fst (write_cells (cell filled) v (col_route r k) (new_table r k CHR '' '', 0))"
proof -
  have "(\<lambda>(i, j) (tbl, idx).
           if cell filled i j \<and> idx < length v then (set_cell tbl i j (v ! idx), idx + 1)
           else (tbl, idx)) \<circ> prod.swap =
        (\<lambda>(j, i) (table, text_index).
           if cell filled i j \<and> text_index < length v
           then (set_cell table i j (v ! text_index), text_index + 1)
           else (table, text_index))"
    by (auto simp: fun_eq_iff)
  then show ?thesis
    by (simp add: write_columns_def write_cells_def col_route_def nested_fold_product fold_map)
qed

lemma read_columns_eq:
  "read_columns tbl r k =
     map (\<lambda>(i, j). cell tbl i j) (filter (\<lambda>(i, j). cell tbl i j \<noteq> CHR '' '') (col_route r k))"
proof -
  have "read_columns tbl r k =
          fold (\<lambda>(j, i) result.
                  if cell tbl i j \<noteq> CHR '' '' then result @ [cell tbl i j] else result)
            (List.product (rev [0..<k]) (rev [0..<r])) []"
    by (simp add: read_columns_def nested_fold_product)
  also have "\<dots> = fold (\<lambda>x result. if (case x of (j, i) \<Rightarrow> cell tbl i j \<noteq> CHR '' '')
                                     then result @ [case x of (j, i) \<Rightarrow> cell tbl i j] else result)
            (List.product (rev [0..<k]) (rev [0..<r])) []"
    by (rule arg_cong[where f = "\<lambda>f. fold f _ []"]) (auto simp: fun_eq_iff)
  also have "\<dots> = map (\<lambda>(j, i). cell tbl i j)
                     (filter (\<lambda>(j, i). cell tbl i j \<noteq> CHR '' '')
                        (List.product (rev [0..<k]) (rev [0..<r])))"
    by (simp add: fold_snoc_filter)
  also have "\<dots> = map (\<lambda>(i, j). cell tbl i j)
                     (filter (\<lambda>(i, j). cell tbl i j \<noteq> CHR '' '') (col_route r k))"
    by (simp add: col_route_def filter_map comp_def split_def)
  finally show ?thesis .
qed

lemma read_rows_eq:
  "read_rows tbl filled r k =
     map (\<lambda>(i, j). cell tbl i j) (filter (\<lambda>(i, j). cell filled i j) (row_major r k))"
proof -
  have "read_rows tbl filled r k =
          fold (\<lambda>(i, j) result. if cell filled i j then result @ [cell tbl i j] else result)
            (row_major r k) []"
    by (simp add: read_rows_def row_major_def nested_fold_product)
  also have "\<dots> = fold (\<lambda>x result. if (case x of (i, j) \<Rightarrow> cell filled i j)
                                     then result @ [case x of (i, j) \<Rightarrow> cell tbl i j] else result)
            (row_major r k) []"
    by (rule arg_cong[where f = "\<lambda>f. fold f _ []"]) (auto simp: fun_eq_iff)
  finally show ?thesis
    by (simp add: fold_snoc_filter)
qed

lemma cell_index_unique:
  "j < k \<Longrightarrow> j' < k \<Longrightarrow> i * k + j = i' * k + j' \<Longrightarrow> i = i' \<and> j = (j'::nat)"
proof -
  assume a: "j < k" "j' < k" "i * k + j = i' * k + j'"
  have "(i * k + j) div k = i"
    using a(1) by simp
  moreover have "(i' * k + j') div k = i'"
    using a(2) by simp
  ultimately have "i = i'"
    using a(3) by metis
  with a(3) show ?thesis by simp
qed

lemma row_major_eq: "row_major r k = map (\<lambda>q. (q div k, q mod k)) [0..<r * k]"
proof (rule nth_equalityI)
  show "length (row_major r k) = length (map (\<lambda>q. (q div k, q mod k)) [0..<r * k])"
    by (simp add: row_major_def)
next
  fix q assume "q < length (row_major r k)"
  then have q: "q < r * k" by (simp add: row_major_def)
  then have "0 < k" by (cases k) simp_all
  then have "q div k < r" "q mod k < k"
    using q by (simp_all add: less_mult_imp_div_less)
  then show "row_major r k ! q = map (\<lambda>q. (q div k, q mod k)) [0..<r * k] ! q"
    using q by (simp add: row_major_def product_nth)
qed

lemma filter_less_upt: "n \<le> m \<Longrightarrow> filter (\<lambda>q. q < n) [0..<m] = [0..<n]"
proof (induction m)
  case 0 then show ?case by simp
next
  case (Suc m) then show ?case by (cases "n = Suc m") auto
qed

lemma row_major_filled:
  assumes "n \<le> r * k"
  shows "filter (\<lambda>(i, j). i * k + j < n) (row_major r k) = map (\<lambda>q. (q div k, q mod k)) [0..<n]"
proof -
  have "filter (\<lambda>(i, j). i * k + j < n) (row_major r k) =
          map (\<lambda>q. (q div k, q mod k)) (filter (\<lambda>q. q < n) [0..<r * k])"
    by (simp add: row_major_eq filter_map comp_def)
  then show ?thesis
    using assms by (simp add: filter_less_upt)
qed

lemma row_major_range: "\<forall>(a, b)\<in>set (row_major r k). a < r \<and> b < k"
  by (simp add: row_major_def)

lemma distinct_row_major: "distinct (row_major r k)"
  by (simp add: row_major_def distinct_product)

lemma set_col_route: "set (col_route r k) = {0..<r} \<times> {0..<k}"
  by (auto simp: col_route_def)

lemma col_route_range: "\<forall>(a, b)\<in>set (col_route r k). a < r \<and> b < k"
  by (simp add: set_col_route)

lemma distinct_col_route: "distinct (col_route r k)"
  by (simp add: col_route_def distinct_map distinct_product)

lemma write_row_major_cell:
  assumes "i < r" "j < k"
  shows "cell (fst (write_cells (\<lambda>_ _. True) xs (row_major r k) (new_table r k x0, 0))) i j =
           (if i * k + j < length xs then xs ! (i * k + j) else x0)"
proof -
  let ?q = "i * k + j"
  let ?T = "fst (write_cells (\<lambda>_ _. True) xs (row_major r k) (new_table r k x0, 0))"
  have flt: "filter (\<lambda>(a, b). True) (row_major r k) = row_major r k"
    by simp
  have "?q < r * k"
  proof -
    have "?q < i * k + k" using assms(2) by simp
    also have "\<dots> = Suc i * k" by simp
    also have "\<dots> \<le> r * k" using assms(1) by (intro mult_le_mono1) simp
    finally show ?thesis .
  qed
  then have q: "?q < length (row_major r k)" and nth: "row_major r k ! ?q = (i, j)"
    using assms(2) by (simp_all add: row_major_eq)
  show ?thesis
  proof (cases "?q < length xs")
    case True
    have "(case filter (\<lambda>(a, b). True) (row_major r k) ! ?q of
            (i, j) \<Rightarrow> cell ?T i j) = xs ! (0 + ?q)"
      using True q
      by (intro write_cells_written[where r = r and k = k] dims_new_table row_major_range
            distinct_row_major) (simp_all only: flt add_0)
    then show ?thesis
      using True by (simp only: flt nth) simp
  next
    case False
    have "(i, j) \<notin> set (take (length xs - 0) (filter (\<lambda>(a, b). True) (row_major r k)))"
    proof
      assume "(i, j) \<in> set (take (length xs - 0) (filter (\<lambda>(a, b). True) (row_major r k)))"
      then have "(i, j) \<in> set (take (length xs) (row_major r k))"
        by (simp only: flt diff_zero)
      then obtain p where p: "p < length xs" "p < length (row_major r k)" "row_major r k ! p = (i, j)"
        by (auto simp: in_set_conv_nth)
      then have "p = ?q"
        using nth q distinct_row_major[of r k] by (metis nth_eq_iff_index_eq)
      with p(1) False show False by simp
    qed
    then have "cell ?T i j = cell (new_table r k x0) i j"
      by (intro write_cells_unchanged[where r = r and k = k] dims_new_table row_major_range assms)
    then show ?thesis
      using False assms by (simp add: cell_new_table)
  qed
qed

lemma fill_rows_cell:
  "i < r \<Longrightarrow> j < k \<Longrightarrow>
   cell (fill_rows v r k) i j = (if i * k + j < length v then v ! (i * k + j) else CHR '' '')"
  unfolding fill_rows_eq by (rule write_row_major_cell)

lemma mark_filled_cell:
  "i < r \<Longrightarrow> j < k \<Longrightarrow> cell (mark_filled n r k) i j \<longleftrightarrow> i * k + j < n"
  unfolding mark_filled_eq by (simp add: write_row_major_cell)

lemma rows_bound: "0 < k \<Longrightarrow> n \<le> (n + k - 1) div k * (k::nat)"
proof -
  assume k: "0 < k"
  have "(n + k - 1) mod k < k" using k by simp
  moreover have "(n + k - 1) div k * k + (n + k - 1) mod k = n + k - 1"
    by simp
  ultimately show ?thesis by linarith
qed

lemma inj_on_cell_index: "inj_on (\<lambda>(i, j). i * k + j) ({0..<r} \<times> {0..<k::nat})"
  by (auto simp: inj_on_def dest: cell_index_unique)

lemma image_cell_index: "(\<lambda>(i, j). i * k + j) ` ({0..<r} \<times> {0..<k}) = {0..<r * (k::nat)}"
proof (intro equalityI subsetI)
  fix q assume "q \<in> (\<lambda>(i, j). i * k + j) ` ({0..<r} \<times> {0..<k})"
  then obtain i j where ij: "i < r" "j < k" "q = i * k + j" by auto
  have "i * k + j < i * k + k" using ij(2) by simp
  also have "\<dots> = Suc i * k" by simp
  also have "\<dots> \<le> r * k" using ij(1) by (intro mult_le_mono1) simp
  finally show "q \<in> {0..<r * k}" using ij(3) by simp
next
  fix q assume "q \<in> {0..<r * k}"
  then have q: "q < r * k" by simp
  then have "0 < k" by (cases k) simp_all
  then have "q div k < r" "q mod k < k" "q = q div k * k + q mod k"
    using q by (simp_all add: less_mult_imp_div_less)
  then show "q \<in> (\<lambda>(i, j). i * k + j) ` ({0..<r} \<times> {0..<k})"
    by (intro image_eqI[where x = "(q div k, q mod k)"]) simp_all
qed

lemma route_perm_distinct: "distinct (route_perm n r k)"
  unfolding route_perm_def
  by (intro distinct_filter)
     (simp add: distinct_map distinct_col_route set_col_route inj_on_cell_index)

lemma route_perm_set: "n \<le> r * k \<Longrightarrow> set (route_perm n r k) = {0..<n}"
  unfolding route_perm_def by (auto simp: set_col_route image_cell_index)

lemma route_perm_length: "n \<le> r * k \<Longrightarrow> length (route_perm n r k) = n"
  using distinct_card[OF route_perm_distinct, of n r k] by (simp add: route_perm_set)

lemma route_perm_mset: "n \<le> r * k \<Longrightarrow> mset (route_perm n r k) = mset [0..<n]"
  by (intro set_eq_iff_mset_eq_distinct[THEN iffD1] route_perm_distinct)
     (simp_all add: route_perm_set)

lemma route_filled:
  "map (\<lambda>(i, j). i * k + j) (filter (\<lambda>(i, j). i * k + j < n) (col_route r k)) = route_perm n r k"
  by (simp add: route_perm_def filter_map comp_def split_def)

lemma read_filled:
  assumes "CHR '' '' \<notin> set v"
  shows "read_columns (fill_rows v r k) r k = map ((!) v) (route_perm (length v) r k)"
proof -
  let ?T = "fill_rows v r k" and ?n = "length v"
  have flt: "filter (\<lambda>(i, j). cell ?T i j \<noteq> CHR '' '') (col_route r k) =
             filter (\<lambda>(i, j). i * k + j < ?n) (col_route r k)"
  proof (rule filter_cong[OF refl])
    fix x assume "x \<in> set (col_route r k)"
    then obtain i j where x: "x = (i, j)" "i < r" "j < k"
      by (auto simp: set_col_route)
    have "v ! (i * k + j) \<noteq> CHR '' ''" if "i * k + j < ?n"
      using that assms by (metis nth_mem)
    then show "(case x of (i, j) \<Rightarrow> cell ?T i j \<noteq> CHR '' '') =
               (case x of (i, j) \<Rightarrow> i * k + j < ?n)"
      using x by (simp add: fill_rows_cell)
  qed
  have "map (\<lambda>(i, j). cell ?T i j) (filter (\<lambda>(i, j). i * k + j < ?n) (col_route r k)) =
        map (\<lambda>(i, j). v ! (i * k + j)) (filter (\<lambda>(i, j). i * k + j < ?n) (col_route r k))"
  proof (rule map_cong[OF refl])
    fix x assume "x \<in> set (filter (\<lambda>(i, j). i * k + j < ?n) (col_route r k))"
    then obtain i j where x: "x = (i, j)" "i < r" "j < k" "i * k + j < ?n"
      by (auto simp: set_col_route)
    then show "(case x of (i, j) \<Rightarrow> cell ?T i j) = (case x of (i, j) \<Rightarrow> v ! (i * k + j))"
      by (simp add: fill_rows_cell)
  qed
  also have "\<dots> = map ((!) v) (map (\<lambda>(i, j). i * k + j)
                       (filter (\<lambda>(i, j). i * k + j < ?n) (col_route r k)))"
    by (simp add: comp_def split_def)
  finally show ?thesis
    by (simp only: read_columns_eq flt route_filled)
qed

lemma read_written:
  assumes n: "length w \<le> r * k"
  defines "F \<equiv> mark_filled (length w) r k"
  defines "out \<equiv> read_rows (write_columns w F r k) F r k"
  shows "length out = length w"
    and "p < length w \<Longrightarrow> out ! (route_perm (length w) r k ! p) = w ! p"
proof -
  let ?n = "length w"
  let ?D = "write_columns w F r k"
  let ?fr = "filter (\<lambda>(a, b). a * k + b < ?n) (col_route r k)"
  have fr: "filter (\<lambda>(a, b). cell F a b) (col_route r k) = ?fr"
  proof (rule filter_cong[OF refl])
    fix x assume "x \<in> set (col_route r k)"
    then obtain i j where x: "x = (i, j)" "i < r" "j < k"
      by (auto simp: set_col_route)
    then show "(case x of (a, b) \<Rightarrow> cell F a b) = (case x of (a, b) \<Rightarrow> a * k + b < ?n)"
      by (simp add: F_def mark_filled_cell)
  qed
  have rows: "filter (\<lambda>(i, j). cell F i j) (row_major r k) =
              map (\<lambda>q. (q div k, q mod k)) [0..<?n]"
  proof -
    have "filter (\<lambda>(i, j). cell F i j) (row_major r k) =
          filter (\<lambda>(i, j). i * k + j < ?n) (row_major r k)"
    proof (rule filter_cong[OF refl])
      fix x assume "x \<in> set (row_major r k)"
      then obtain i j where x: "x = (i, j)" "i < r" "j < k"
        by (auto simp: row_major_def)
      then show "(case x of (a, b) \<Rightarrow> cell F a b) = (case x of (a, b) \<Rightarrow> a * k + b < ?n)"
        by (simp add: F_def mark_filled_cell)
    qed
    then show ?thesis
      using n by (simp add: row_major_filled)
  qed
  have out: "out = map (\<lambda>q. cell ?D (q div k) (q mod k)) [0..<?n]"
    by (simp add: out_def read_rows_eq rows comp_def)
  then show "length out = length w"
    by simp
  show "out ! (route_perm ?n r k ! p) = w ! p" if p: "p < length w"
  proof -
    have lfr: "length ?fr = ?n"
      using route_perm_length[OF n] route_filled[of k ?n r] by (metis length_map)
    obtain a b where ab: "?fr ! p = (a, b)"
      by (cases "?fr ! p")
    have "(a, b) \<in> set ?fr"
      using p lfr ab by (metis nth_mem)
    then have rng: "a < r" "b < k" "a * k + b < ?n"
      by (auto simp: set_col_route)
    have "route_perm ?n r k ! p = (\<lambda>(i, j). i * k + j) (?fr ! p)"
      using p lfr by (simp flip: route_filled)
    then have q: "route_perm ?n r k ! p = a * k + b"
      by (simp add: ab)
    have "(case filter (\<lambda>(a, b). cell F a b) (col_route r k) ! p of
             (i, j) \<Rightarrow> cell (fst (write_cells (cell F) w (col_route r k)
                                   (new_table r k CHR '' '', 0))) i j) = w ! (0 + p)"
      using p lfr
      by (intro write_cells_written[where r = r and k = k] dims_new_table col_route_range
            distinct_col_route) (simp_all add: fr)
    then have "cell ?D a b = w ! p"
      by (simp add: fr ab write_columns_eq)
    then show ?thesis
      using rng by (simp add: out q)
  qed
qed

lemma toupper_props:
  assumes "isalpha c"
  shows "isalpha (toupper c)" and "toupper (toupper c) = toupper c" and "toupper c \<noteq> CHR '' ''"
proof -
  let ?n = "of_char c :: nat"
  show "isalpha (toupper c)" "toupper (toupper c) = toupper c"
    using assms by (auto simp: isalpha_def toupper_def Let_def)
  show "toupper c \<noteq> CHR '' ''"
  proof
    assume "toupper c = CHR '' ''"
    then have "(of_char (toupper c) :: nat) = 32" by simp
    then show False
      using assms by (auto simp: isalpha_def toupper_def Let_def split: if_splits)
  qed
qed

lemma getValidText_eq:
  "getValidText txt =
     (if txt = [] then Inl EmptyText
      else if \<forall>ch\<in>set txt. \<not> isalpha ch then Inl NoLetters
      else Inr (map toupper (filter isalpha txt)))"
  by (auto simp: getValidText_def Let_def foldl_snoc_filter filter_empty_conv)

lemma getValidText_normal: "getValidText txt = Inr v \<Longrightarrow> normal v"
  by (auto simp: getValidText_eq normal_def toupper_props filter_empty_conv split: if_splits)

lemma normal_getValidText: "normal v \<Longrightarrow> getValidText v = Inr v"
proof -
  assume v: "normal v"
  then have "filter isalpha v = v" "map toupper v = v"
    by (auto simp: normal_def intro: map_idI)
  with v show ?thesis
    by (auto simp: getValidText_eq normal_def)
qed

lemma normal_no_blank: "normal v \<Longrightarrow> CHR '' '' \<notin> set v"
  using toupper_props(3) by (auto simp: normal_def)

lemma encrypt_eq:
  assumes "getValidText txt = Inr v" and "columns c < length v"
  shows "TableRouteCipher_encrypt c txt =
           Inr (map ((!) v) (route_perm (length v) ((length v + columns c - 1) div columns c)
                               (columns c)))"
  using assms normal_no_blank[OF getValidText_normal[OF assms(1)]]
  by (simp add: TableRouteCipher_encrypt_def Let_def read_filled)

lemma decrypt_eq:
  assumes "getValidText txt = Inr w" and "columns c < length w"
  shows "TableRouteCipher_decrypt c txt =
           Inr (read_rows (write_columns w (mark_filled (length w)
                   ((length w + columns c - 1) div columns c) (columns c))
                   ((length w + columns c - 1) div columns c) (columns c))
                 (mark_filled (length w) ((length w + columns c - 1) div columns c) (columns c))
                 ((length w + columns c - 1) div columns c) (columns c))"
  using assms by (simp add: TableRouteCipher_decrypt_def Let_def)

lemma encrypt_permutes:
  assumes k: "0 < columns c" and v: "getValidText txt = Inr v" and len: "columns c < length v"
  obtains ct where "TableRouteCipher_encrypt c txt = Inr ct" "length ct = length v"
    "mset ct = mset v" "normal ct"
proof -
  let ?n = "length v" and ?k = "columns c"
  let ?r = "(?n + ?k - 1) div ?k"
  let ?ct = "map ((!) v) (route_perm ?n ?r ?k)"
  have n: "?n \<le> ?r * ?k" by (rule rows_bound[OF k])
  have e: "TableRouteCipher_encrypt c txt = Inr ?ct"
    by (rule encrypt_eq[OF v len])
  have l: "length ?ct = ?n"
    by (simp only: length_map route_perm_length[OF n])
  have "mset ?ct = image_mset ((!) v) (mset (route_perm ?n ?r ?k))"
    by (rule mset_map)
  also have "\<dots> = image_mset ((!) v) (mset [0..<?n])"
    by (simp only: route_perm_mset[OF n])
  also have "\<dots> = mset (map ((!) v) [0..<?n])"
    by (rule mset_map[symmetric])
  also have "\<dots> = mset v"
    by (simp only: map_nth)
  finally have m: "mset ?ct = mset v" .
  then have "set ?ct = set v"
    by (rule mset_eq_setD)
  moreover have "?ct \<noteq> []"
    using l len by auto
  ultimately have "normal ?ct"
    using getValidText_normal[OF v] unfolding normal_def by blast
  with e l m show ?thesis
    by (rule that)
qed

lemma route_encrypt_then_decrypt:
  assumes k: "0 < columns c" and v: "getValidText txt = Inr v" and len: "columns c < length v"
  shows "\<exists>ct. TableRouteCipher_encrypt c txt = Inr ct \<and> TableRouteCipher_decrypt c ct = Inr v"
proof -
  let ?n = "length v" and ?k = "columns c"
  let ?r = "(?n + ?k - 1) div ?k"
  let ?perm = "route_perm ?n ?r ?k"
  let ?ct = "map ((!) v) ?perm"
  obtain ct where ct: "TableRouteCipher_encrypt c txt = Inr ct" "length ct = ?n" "normal ct"
    using encrypt_permutes[OF k v len] by blast
  have cte: "ct = ?ct"
    using ct(1) encrypt_eq[OF v len] by simp
  have n: "?n \<le> ?r * ?k" by (rule rows_bound[OF k])
  have n': "length ct \<le> ?r * ?k" using n ct(2) by simp
  have g: "getValidText ct = Inr ct"
    by (rule normal_getValidText[OF ct(3)])
  let ?F = "mark_filled (length ct) ?r ?k"
  let ?out = "read_rows (write_columns ct ?F ?r ?k) ?F ?r ?k"
  have d: "TableRouteCipher_decrypt c ct = Inr ?out"
    using decrypt_eq[OF g, of c] len ct(2) by simp
  have lo: "length ?out = ?n"
    using read_written(1)[OF n'] ct(2) by simp
  have "?out ! q = v ! q" if q: "q < ?n" for q
  proof -
    have "q \<in> set ?perm"
      using q by (simp only: route_perm_set[OF n]) simp
    then obtain p where p: "p < length ?perm" "?perm ! p = q"
      by (auto simp: in_set_conv_nth)
    then have p': "p < length ct"
      by (simp only: route_perm_length[OF n] ct(2))
    have "?out ! (route_perm (length ct) ?r ?k ! p) = ct ! p"
      by (rule read_written(2)[OF n' p'])
    then have "?out ! q = ct ! p"
      using p(2) ct(2) by simp
    also have "\<dots> = v ! q"
      using p by (simp add: cte)
    finally show ?thesis .
  qed
  then have "?out = v"
    using lo by (intro nth_equalityI) simp_all
  with ct(1) d show ?thesis by simp
qed

lemma TableRouteCipher_eq:
  "TableRouteCipher k = (if k \<le> 0 then Inl InvalidKey else Inr \<lparr>columns = nat k\<rparr>)"
  by (simp add: TableRouteCipher_def TableRouteCipher_getValidKey_def)

lemma constructed_columns: "TableRouteCipher k = Inr c \<Longrightarrow> 0 < columns c"
  by (auto simp: TableRouteCipher_eq split: if_splits)

lemma getValidText_letters:
  "filter isalpha txt \<noteq> [] \<Longrightarrow> getValidText txt = Inr (map toupper (filter isalpha txt))"
  by (auto simp: getValidText_eq filter_empty_conv)

text \<open>
  Claim C2. For a cipher built with a positive column count and every text with more
  letters than columns, \<open>encrypt\<close> succeeds and \<open>decrypt\<close> maps its result back to
  the normalized text: the letters of the text, in order, in upper case.
\<close>

theorem route_roundtrip:
  assumes "TableRouteCipher k = Inr c" and "columns c < length (filter isalpha txt)"
  shows "getValidText txt = Inr (map toupper (filter isalpha txt)) \<and>
         (\<exists>ct. TableRouteCipher_encrypt c txt = Inr ct \<and>
               TableRouteCipher_decrypt c ct = Inr (map toupper (filter isalpha txt)))"
proof -
  have ne: "filter isalpha txt \<noteq> []"
    using assms(2) by auto
  have v: "getValidText txt = Inr (map toupper (filter isalpha txt))"
    by (rule getValidText_letters[OF ne])
  have "columns c < length (map toupper (filter isalpha txt))"
    using assms(2) by simp
  from route_encrypt_then_decrypt[OF constructed_columns[OF assms(1)] v this] v
  show ?thesis by blast
qed

theorem route_roundtrip_witness:
  "TableRouteCipher_encrypt \<lparr>columns = 3\<rparr> ''Hello, World 123'' = Inr ''LWLROEDOLH'' \<and>
   TableRouteCipher_decrypt \<lparr>columns = 3\<rparr> ''LWLROEDOLH'' = Inr ''HELLOWORLD''"
proof -
  have c: "TableRouteCipher 3 = Inr \<lparr>columns = 3\<rparr>"
    by (simp add: TableRouteCipher_eq)
  have f: "filter isalpha ''Hello, World 123'' = ''HelloWorld''"
    by code_simp
  have u: "map toupper ''HelloWorld'' = ''HELLOWORLD''"
    by code_simp
  have l: "columns \<lparr>columns = 3\<rparr> < length (filter isalpha ''Hello, World 123'')"
    unfolding f by simp
  have e: "TableRouteCipher_encrypt \<lparr>columns = 3\<rparr> ''Hello, World 123'' = Inr ''LWLROEDOLH''"
    by code_simp
  show ?thesis
    using route_roundtrip[OF c l, unfolded f u] e by simp
qed

text \<open>
  Claim C4. With 3 columns the text HELLO is written into a table of 2 rows, HEL and
  LO with one blank cell, and read as LOELH; decrypting LOELH with 3 columns gives
  HELLO.
\<close>

theorem route_example:
  "TableRouteCipher 3 = Inr \<lparr>columns = 3\<rparr> \<and>
   getValidText ''HELLO'' = Inr ''HELLO'' \<and>
   fill_rows ''HELLO'' 2 3 = [''HEL'', ''LO ''] \<and>
   TableRouteCipher_encrypt \<lparr>columns = 3\<rparr> ''HELLO'' = Inr ''LOELH'' \<and>
   TableRouteCipher_decrypt \<lparr>columns = 3\<rparr> ''LOELH'' = Inr ''HELLO''"
proof -
  have "TableRouteCipher 3 = Inr \<lparr>columns = 3\<rparr>"
    by (simp add: TableRouteCipher_eq)
  moreover have "getValidText ''HELLO'' = Inr ''HELLO''"
    by code_simp
  moreover have "fill_rows ''HELLO'' 2 3 = [''HEL'', ''LO '']"
    by code_simp
  moreover have "TableRouteCipher_encrypt \<lparr>columns = 3\<rparr> ''HELLO'' = Inr ''LOELH''"
    by code_simp
  moreover have "TableRouteCipher_decrypt \<lparr>columns = 3\<rparr> ''LOELH'' = Inr ''HELLO''"
    by code_simp
  ultimately show ?thesis by blast
qed

text \<open>
  Claim C5. When the text can be normalized to \<open>v\<close>, \<open>encrypt\<close> and \<open>decrypt\<close> fail
  with \<open>TextTooShort\<close> exactly when \<open>length v \<le> columns\<close>; when normalization
  fails, they fail with its error, which is never \<open>TextTooShort\<close>.
\<close>

theorem text_too_short:
  "(getValidText txt = Inr v \<longrightarrow>
      (TableRouteCipher_encrypt c txt = Inl TextTooShort \<longleftrightarrow> length v \<le> columns c) \<and>
      (TableRouteCipher_decrypt c txt = Inl TextTooShort \<longleftrightarrow> length v \<le> columns c)) \<and>
   (getValidText txt = Inl e \<longrightarrow>
      e \<noteq> TextTooShort \<and>
      TableRouteCipher_encrypt c txt = Inl e \<and> TableRouteCipher_decrypt c txt = Inl e)"
  by (auto simp: TableRouteCipher_encrypt_def TableRouteCipher_decrypt_def Let_def getValidText_eq
        split: if_splits)

theorem text_too_short_witness:
  "TableRouteCipher_encrypt \<lparr>columns = 5\<rparr> ''WORLD'' = Inl TextTooShort \<and>
   TableRouteCipher_decrypt \<lparr>columns = 5\<rparr> ''WORLD'' = Inl TextTooShort \<and>
   TableRouteCipher_encrypt \<lparr>columns = 5\<rparr> ''WORLDS'' \<noteq> Inl TextTooShort \<and>
   TableRouteCipher_decrypt \<lparr>columns = 5\<rparr> ''WORLDS'' \<noteq> Inl TextTooShort \<and>
   TableRouteCipher_encrypt \<lparr>columns = 5\<rparr> ''12345'' = Inl NoLetters"
proof -
  have a: "getValidText ''WORLD'' = Inr ''WORLD''"
    by code_simp
  have b: "getValidText ''WORLDS'' = Inr ''WORLDS''"
    by code_simp
  have d: "getValidText ''12345'' = Inl NoLetters"
    by code_simp
  show ?thesis
    using text_too_short[of "''WORLD''" "''WORLD''" "\<lparr>columns = 5\<rparr>"] a
      text_too_short[of "''WORLDS''" "''WORLDS''" "\<lparr>columns = 5\<rparr>"] b
      text_too_short[of "''12345''" _ "\<lparr>columns = 5\<rparr>" NoLetters] d
    by simp
qed

text \<open>
  Claim C8. \<open>decrypt\<close> normalizes its input as \<open>encrypt\<close> does: it fails with
  \<open>EmptyText\<close> on the empty input and with \<open>NoLetters\<close> when the input has no
  letter; otherwise it drops every character that is not a letter, uppercases the
  rest and decrypts that, so the only failure left is \<open>TextTooShort\<close>.
\<close>

theorem decrypt_normalizes:
  "(txt = [] \<longrightarrow> TableRouteCipher_decrypt c txt = Inl EmptyText) \<and>
   (txt \<noteq> [] \<and> filter isalpha txt = [] \<longrightarrow> TableRouteCipher_decrypt c txt = Inl NoLetters) \<and>
   (filter isalpha txt \<noteq> [] \<longrightarrow>
      getValidText txt = Inr (map toupper (filter isalpha txt)) \<and>
      TableRouteCipher_decrypt c txt =
        TableRouteCipher_decrypt c (map toupper (filter isalpha txt)) \<and>
      TableRouteCipher_encrypt c txt =
        TableRouteCipher_encrypt c (map toupper (filter isalpha txt)) \<and>
      (TableRouteCipher_decrypt c txt = Inl er \<longrightarrow>
         er = TextTooShort \<and> length (filter isalpha txt) \<le> columns c))"
proof -
  have 1: "TableRouteCipher_decrypt c txt = Inl EmptyText" if "txt = []"
    using that by (simp add: TableRouteCipher_decrypt_def getValidText_eq)
  have 2: "TableRouteCipher_decrypt c txt = Inl NoLetters" if "txt \<noteq> []" "filter isalpha txt = []"
    using that by (simp add: TableRouteCipher_decrypt_def getValidText_eq filter_empty_conv)
  have 3: "getValidText txt = Inr (map toupper (filter isalpha txt)) \<and>
      TableRouteCipher_decrypt c txt =
        TableRouteCipher_decrypt c (map toupper (filter isalpha txt)) \<and>
      TableRouteCipher_encrypt c txt =
        TableRouteCipher_encrypt c (map toupper (filter isalpha txt)) \<and>
      (TableRouteCipher_decrypt c txt = Inl er \<longrightarrow>
         er = TextTooShort \<and> length (filter isalpha txt) \<le> columns c)"
    if ne: "filter isalpha txt \<noteq> []"
  proof -
    let ?v = "map toupper (filter isalpha txt)"
    have v: "getValidText txt = Inr ?v"
      by (rule getValidText_letters[OF ne])
    have vv: "getValidText ?v = Inr ?v"
      by (rule normal_getValidText[OF getValidText_normal[OF v]])
    have "TableRouteCipher_decrypt c txt = TableRouteCipher_decrypt c ?v"
      by (simp only: TableRouteCipher_decrypt_def v vv)
    moreover have "TableRouteCipher_encrypt c txt = TableRouteCipher_encrypt c ?v"
      by (simp only: TableRouteCipher_encrypt_def v vv)
    moreover have "er = TextTooShort \<and> length (filter isalpha txt) \<le> columns c"
      if "TableRouteCipher_decrypt c txt = Inl er"
      using that by (auto simp: TableRouteCipher_decrypt_def v Let_def split: if_splits)
    ultimately show ?thesis
      using v by blast
  qed
  from 1 2 3 show ?thesis by blast
qed

theorem decrypt_normalizes_witness:
  "TableRouteCipher_decrypt \<lparr>columns = 3\<rparr> ''L0o-E l1h'' =
     TableRouteCipher_decrypt \<lparr>columns = 3\<rparr> ''LOELH'' \<and>
   TableRouteCipher_decrypt \<lparr>columns = 3\<rparr> ''L0o-E l1h'' = Inr ''HELLO'' \<and>
   TableRouteCipher_decrypt \<lparr>columns = 3\<rparr> ''2024'' = Inl NoLetters \<and>
   TableRouteCipher_decrypt \<lparr>columns = 3\<rparr> [] = Inl EmptyText"
proof -
  let ?c = "\<lparr>columns = 3\<rparr>"
  have f1: "filter isalpha ''L0o-E l1h'' = ''LoElh''"
    by code_simp
  have f2: "map toupper ''LoElh'' = ''LOELH''"
    by code_simp
  have f3: "filter isalpha ''2024'' = []"
    by code_simp
  have d: "TableRouteCipher_decrypt ?c ''LOELH'' = Inr ''HELLO''"
    by code_simp
  have ne: "filter isalpha ''L0o-E l1h'' \<noteq> []"
    unfolding f1 by simp
  have "TableRouteCipher_decrypt ?c ''L0o-E l1h'' =
          TableRouteCipher_decrypt ?c (map toupper (filter isalpha ''L0o-E l1h''))"
    using decrypt_normalizes[of "''L0o-E l1h''" ?c] ne by blast
  then have 1: "TableRouteCipher_decrypt ?c ''L0o-E l1h'' = TableRouteCipher_decrypt ?c ''LOELH''"
    unfolding f1 f2 .
  have e: "''2024'' \<noteq> [] \<and> filter isalpha ''2024'' = []"
    unfolding f3 by simp
  have 2: "TableRouteCipher_decrypt ?c ''2024'' = Inl NoLetters"
    using decrypt_normalizes[of "''2024''" ?c] e by blast
  have 3: "TableRouteCipher_decrypt ?c [] = Inl EmptyText"
    using decrypt_normalizes[of "[]" ?c] by blast
  from 1 2 3 d show ?thesis
    by (simp only: simp_thms)
qed

text \<open>
  Claim C10. For a cipher built with a positive column count, an output of \<open>encrypt\<close>
  has the length of the normalized text and the same characters with the same
  multiplicities.
\<close>

theorem encrypt_is_permutation:
  assumes "TableRouteCipher k = Inr c" and "TableRouteCipher_encrypt c txt = Inr ct"
  shows "getValidText txt = Inr (map toupper (filter isalpha txt)) \<and>
         length ct = length (filter isalpha txt) \<and>
         mset ct = mset (map toupper (filter isalpha txt))"
proof -
  obtain v where v: "getValidText txt = Inr v" and len: "columns c < length v"
    using assms(2)
    by (cases "getValidText txt")
       (auto simp: TableRouteCipher_encrypt_def Let_def split: if_splits)
  have ve: "v = map toupper (filter isalpha txt)"
    using v by (auto simp: getValidText_eq split: if_splits)
  obtain ct' where "TableRouteCipher_encrypt c txt = Inr ct'" "length ct' = length v"
      "mset ct' = mset v"
    using encrypt_permutes[OF constructed_columns[OF assms(1)] v len] by blast
  with assms(2) v show ?thesis
    by (simp add: ve)
qed

theorem encrypt_is_permutation_witness:
  "length ''LWLROEDOLH'' = length (filter isalpha ''Hello, World 123'') \<and>
   mset ''LWLROEDOLH'' = mset (map toupper (filter isalpha ''Hello, World 123''))"
proof -
  have c: "TableRouteCipher 3 = Inr \<lparr>columns = 3\<rparr>"
    by (simp add: TableRouteCipher_eq)
  have e: "TableRouteCipher_encrypt \<lparr>columns = 3\<rparr> ''Hello, World 123'' = Inr ''LWLROEDOLH''"
    by code_simp
  show ?thesis
    using encrypt_is_permutation[OF c e] by blast
qed

end
